theory Spec2Isabelle
  imports
    Main
    "HOL-Library.Word"
    "HOL-Library.Multiset"
    "HOL-Library.Char_ord"
    "HOL-Library.List_Lexorder"
    "HOL-Library.Product_Lexorder"
begin

section \<open>Data model of pkg/replication\<close>

text \<open>
  Node names and health states are Go string types (\<^verbatim>\<open>types.NodeName\<close>,
  \<^verbatim>\<open>health.HealthState\<close>); the code compares a health state with the empty string, so
  it is kept a string here.
\<close>

type_synonym NodeName = string
type_synonym HealthState = string

text \<open>
  Go errors. The sentinels \<^verbatim>\<open>errTimeout\<close>, \<^verbatim>\<open>errCancelled\<close>, \<^verbatim>\<open>errQuit\<close>,
  \<^verbatim>\<open>pods.NoCurrentManifest\<close> and \<^verbatim>\<open>health.NoStatusGiven\<close> are compared by identity in
  the code; every other error (\<^verbatim>\<open>util.Errorf\<close>, errors of the store) carries its message.
\<close>

datatype error =
    errTimeout | errCancelled | errQuit | NoCurrentManifest | NoStatusGiven | Errorf string

text \<open>\<^verbatim>\<open>replicationError\<close>: the value sent on \<^verbatim>\<open>errCh\<close>.\<close>

record replicationError =
  err :: error
  isFatal :: bool

text \<open>A channel that is only ever closed (\<^verbatim>\<open>chan struct{}\<close> used as a signal).\<close>

datatype signal = Open | Closed

text \<open>A log line: the level, the message, and the error formatted into it (if any).\<close>

datatype logline = Info string | Error string "error option"

text \<open>
  \<^verbatim>\<open>health.Result\<close>, with the fields the tests of the package show. The zero value is what
  a Go map lookup returns for a missing key.
\<close>

record Result =
  ID :: string
  Node :: NodeName
  Service :: string
  Status :: HealthState

definition zeroResult :: Result where
  "zeroResult = \<lparr>ID = [], Node = [], Service = [], Status = []\<rparr>"

text \<open>The health states of \<^verbatim>\<open>pkg/health\<close>, as the strings the tests show.\<close>

definition Passing :: HealthState where "Passing = ''passing''"
definition Warning :: HealthState where "Warning = ''warning''"
definition Unknown :: HealthState where "Unknown = ''unknown''"
definition Critical :: HealthState where "Critical = ''critical''"

text \<open>
  The fields of \<^verbatim>\<open>struct replication\<close> that the functions below read or write. The
  manifest is an interface value of another package and stays a type parameter; its
  methods \<^verbatim>\<open>SHA()\<close> (the content hash and an error) and \<^verbatim>\<open>ID()\<close> are passed to the
  functions that call them. \<^verbatim>\<open>completedCount\<close> is an \<^verbatim>\<open>int32\<close> changed with atomic
  stores and adds, so it wraps. \<^verbatim>\<open>nodeQueue\<close> is a channel or nil: \<open>None\<close> is nil, and a
  channel given by the caller is its identifier. \<^verbatim>\<open>errCh\<close> holds the values sent on the
  channel so far; \<^verbatim>\<open>logger\<close> the lines logged so far.
\<close>

record 'm replication =
  active :: int
  nodes :: "NodeName list"
  completedCount :: "32 word"
  manifest :: 'm
  threshold :: HealthState
  podLabels :: "(string \<times> string) list"
  errCh :: "replicationError list"
  replicationCancelledCh :: signal
  quitCh :: signal
  timedOutReplications :: "NodeName list"
  nodeQueue :: "nat option"
  logger :: "logline list"

text \<open>\<^verbatim>\<open>newReplication\<close> (replication.go 164-206), for the fields above.\<close>

definition newReplication ::
  "int \<Rightarrow> NodeName list \<Rightarrow> (string \<times> string) list \<Rightarrow> 'm \<Rightarrow> HealthState \<Rightarrow> nat option \<Rightarrow>
   'm replication" where
  "newReplication act ns labels man thr q =
     \<lparr>active = act, nodes = ns, completedCount = 0, manifest = man, threshold = thr,
      podLabels = labels, errCh = [], replicationCancelledCh = Open, quitCh = Open,
      timedOutReplications = [], nodeQueue = q, logger = []\<rparr>"

subsection \<open>SetManifest, GetManifest, CompletedCount\<close>

text \<open>
  \<^verbatim>\<open>SetManifest\<close> (replication.go 421-431): both hashes are taken with their errors
  dropped; the counter is stored as zero when the hashes differ; the manifest is replaced.
\<close>

definition SetManifest ::
  "('m \<Rightarrow> string \<times> error option) \<Rightarrow> 'm \<Rightarrow> 'm replication \<Rightarrow> 'm replication" where
  "SetManifest SHA man r =
     (let oldSHA = fst (SHA (manifest r));
          newSHA = fst (SHA man);
          r1 = (if oldSHA \<noteq> newSHA then r\<lparr>completedCount := 0\<rparr> else r)
      in r1\<lparr>manifest := man\<rparr>)"

definition GetManifest :: "'m replication \<Rightarrow> 'm" where
  "GetManifest r = manifest r"

definition CompletedCount :: "'m replication \<Rightarrow> 32 word" where
  "CompletedCount r = completedCount r"

subsection \<open>Cancel\<close>

text \<open>
  \<^verbatim>\<open>Cancel\<close> (replication.go 411-415) closes \<^verbatim>\<open>replicationCancelledCh\<close> when
  \<^verbatim>\<open>nodeQueue\<close> is nil. Closing a closed channel panics in Go, which is the \<open>None\<close> here.
\<close>

definition close_signal :: "signal \<Rightarrow> signal option" where
  "close_signal c = (case c of Open \<Rightarrow> Some Closed | Closed \<Rightarrow> None)"

definition Cancel :: "'m replication \<Rightarrow> 'm replication option" where
  "Cancel r =
     (if nodeQueue r = None
      then (case close_signal (replicationCancelledCh r) of
              None \<Rightarrow> None
            | Some c \<Rightarrow> Some (r\<lparr>replicationCancelledCh := c\<rparr>))
      else Some r)"

subsection \<open>The polling loops of the per-node updater\<close>

text \<open>
  A call that has not returned yet, has panicked, or has returned a value. The two wait
  loops below can run forever, so their result on a finite run of the \<^verbatim>\<open>select\<close> may be
  \<open>StillRunning\<close>.
\<close>

datatype 'a exec = StillRunning | Panic | Returns 'a

text \<open>
  One turn of the \<^verbatim>\<open>select\<close> in \<^verbatim>\<open>ensureInReality\<close> and \<^verbatim>\<open>ensureHealthy\<close>: the case
  that was taken. \<open>Tick\<close> is the \<^verbatim>\<open>time.After\<close> case and carries what the query made in
  that case returned.
\<close>

datatype 'a poll = QuitClosed | CtxIsDone | CancelledClosed | Tick 'a

text \<open>
  \<^verbatim>\<open>ensureInReality\<close> (replication.go 606-642). A tick carries the manifest and error of
  \<^verbatim>\<open>queryReality\<close>. With no error the code calls \<^verbatim>\<open>man.SHA()\<close> without a nil check,
  which panics on a nil manifest.
\<close>

fun ensureInReality ::
  "('m \<Rightarrow> string \<times> error option) \<Rightarrow> string \<Rightarrow> ('m option \<times> error option) poll list \<Rightarrow>
   error option exec" where
  "ensureInReality SHA targetSHA [] = StillRunning"
| "ensureInReality SHA targetSHA (QuitClosed # evs) = Returns (Some errQuit)"
| "ensureInReality SHA targetSHA (CtxIsDone # evs) = Returns (Some errTimeout)"
| "ensureInReality SHA targetSHA (CancelledClosed # evs) = Returns (Some errCancelled)"
| "ensureInReality SHA targetSHA (Tick (man, e) # evs) =
     (if e = Some NoCurrentManifest then ensureInReality SHA targetSHA evs
      else if e \<noteq> None then ensureInReality SHA targetSHA evs
      else (case man of
              None \<Rightarrow> Panic
            | Some m \<Rightarrow>
                (let receivedSHA = fst (SHA m)
                 in if receivedSHA = targetSHA then Returns None
                    else ensureInReality SHA targetSHA evs)))"

text \<open>
  \<^verbatim>\<open>ensureHealthy\<close> (replication.go 644-685). A tick carries the lookup of the node in
  the aggregator (\<open>None\<close> when \<^verbatim>\<open>ok\<close> is false, where \<^verbatim>\<open>res\<close> is the zero result). The
  status read from it and the threshold used are the two helpers below (lines 669-675).
  \<^verbatim>\<open>health.Compare\<close> belongs to a package that is not among the sources and is a
  parameter.
\<close>

definition nodeStatus :: "Result option \<Rightarrow> HealthState" where
  "nodeStatus h = Status (case h of None \<Rightarrow> zeroResult | Some res \<Rightarrow> res)"

definition effectiveThreshold :: "HealthState \<Rightarrow> HealthState" where
  "effectiveThreshold thr = (if thr \<noteq> [] then thr else Passing)"

fun ensureHealthy ::
  "(HealthState \<Rightarrow> HealthState \<Rightarrow> int) \<Rightarrow> HealthState \<Rightarrow> Result option poll list \<Rightarrow>
   error option exec" where
  "ensureHealthy Compare thr [] = StillRunning"
| "ensureHealthy Compare thr (QuitClosed # evs) = Returns (Some errQuit)"
| "ensureHealthy Compare thr (CtxIsDone # evs) = Returns (Some errTimeout)"
| "ensureHealthy Compare thr (CancelledClosed # evs) = Returns (Some errCancelled)"
| "ensureHealthy Compare thr (Tick h # evs) =
     (let status = nodeStatus h;
          threshold = effectiveThreshold thr
      in if Compare status threshold < 0 then ensureHealthy Compare thr evs
         else Returns None)"

text \<open>
  Modelled from the spec: \<^verbatim>\<open>health.Compare\<close> of \<^verbatim>\<open>pkg/health\<close>, which is not among the
  sources. The spec orders the states \<open>Unknown < Critical < Warning < Passing\<close>, makes the
  comparison total, and treats a missing entry (the zero state) as \<open>Critical\<close>; the result
  is negative, zero or positive as the first state is below, equal to or above the second.
\<close>

definition healthInt :: "HealthState \<Rightarrow> int" where
  "healthInt s =
     (if s = Passing then 3 else if s = Warning then 2 else if s = Unknown then 0 else 1)"

definition Compare_spec :: "HealthState \<Rightarrow> HealthState \<Rightarrow> int" where
  "Compare_spec a b = healthInt a - healthInt b"

subsection \<open>The per-node updater\<close>

text \<open>The calls \<^verbatim>\<open>updateOne\<close> makes on the intent store, in order.\<close>

datatype 'm storeOp =
    SetPodTxn NodeName 'm
  | SetLabelsTxn NodeName "(string \<times> string) list"
  | CommitWithRetries

text \<open>
  What the collaborators answer during one call of \<^verbatim>\<open>updateOne\<close>: the reality query of
  \<^verbatim>\<open>shouldScheduleForNode\<close>, the errors of \<^verbatim>\<open>SetPodTxn\<close> and \<^verbatim>\<open>SetLabelsTxn\<close>, the
  \<^verbatim>\<open>(ok, err)\<close> of \<^verbatim>\<open>transaction.CommitWithRetries\<close>, and the turns of the two wait loops.
\<close>

record 'm updateEnv =
  reality :: "'m option \<times> error option"
  setPodTxn :: "error option"
  setLabelsTxn :: "error option"
  commit :: "bool \<times> error option"
  realityPolls :: "('m option \<times> error option) poll list"
  healthPolls :: "Result option poll list"

text \<open>\<^verbatim>\<open>shouldScheduleForNode\<close> (replication.go 494-524), on the answer of the reality query.\<close>

definition shouldScheduleForNode ::
  "('m \<Rightarrow> string \<times> error option) \<Rightarrow> ('m option \<times> error option) \<Rightarrow> 'm replication \<Rightarrow> bool" where
  "shouldScheduleForNode SHA q r =
     (case q of (nodeReality, e) \<Rightarrow>
        if e = Some NoCurrentManifest then True
        else if e \<noteq> None then True
        else (case nodeReality of
                None \<Rightarrow> True
              | Some nr \<Rightarrow>
                  (case SHA nr of (nodeRealitySHA, e1) \<Rightarrow>
                     if e1 \<noteq> None then True
                     else (case SHA (GetManifest r) of (replicationRealitySHA, e2) \<Rightarrow>
                             if e2 \<noteq> None then True
                             else if nodeRealitySHA = replicationRealitySHA then False
                             else True))))"

text \<open>
  \<^verbatim>\<open>updateOne\<close> (replication.go 526-587). It returns the result of the call, the
  replication, and the store calls made. The increment of \<^verbatim>\<open>completedCount\<close> is deferred
  right after the check of \<^verbatim>\<open>shouldScheduleForNode\<close>, so it runs when the call returns
  (or panics) on any later path, and has not run while the call is still in a wait loop.
\<close>

definition updateOne ::
  "('m \<Rightarrow> string \<times> error option) \<Rightarrow> (HealthState \<Rightarrow> HealthState \<Rightarrow> int) \<Rightarrow> 'm updateEnv \<Rightarrow>
   NodeName \<Rightarrow> 'm replication \<Rightarrow> error option exec \<times> 'm replication \<times> 'm storeOp list" where
  "updateOne SHA Compare env node r =
     (let man = GetManifest r in
      if \<not> shouldScheduleForNode SHA (reality env) r then (Returns None, r, [])
      else
        (let targetSHA = fst (SHA man);
             labelled = (podLabels r \<noteq> []);
             (res, ops) =
               (case setPodTxn env of
                  Some e \<Rightarrow> (Returns (Some e), [SetPodTxn node man])
                | None \<Rightarrow>
                    (case (if labelled then setLabelsTxn env else None) of
                       Some e \<Rightarrow>
                         (Returns (Some e), [SetPodTxn node man, SetLabelsTxn node (podLabels r)])
                     | None \<Rightarrow>
                         (let ops = SetPodTxn node man #
                                    (if labelled then [SetLabelsTxn node (podLabels r)] else []) @
                                    [CommitWithRetries]
                          in case commit env of (ok, cerr) \<Rightarrow>
                               if cerr \<noteq> None then (Returns (Some errTimeout), ops)
                               else if \<not> ok then
                                 (Returns (Some (Errorf (''got transaction conflict writing intent store for '' @ node))), ops)
                               else (case ensureInReality SHA targetSHA (realityPolls env) of
                                       Returns None \<Rightarrow>
                                         (ensureHealthy Compare (threshold r) (healthPolls env), ops)
                                     | x \<Rightarrow> (x, ops)))))
         in (res,
             (if res = StillRunning then r else r\<lparr>completedCount := completedCount r + 1\<rparr>),
             ops)))"

text \<open>
  The updater run on a list of nodes, one call after the other, each with the answers of
  its collaborators. The counter is only changed by atomic adds, so the order of the calls
  does not change its final value.
\<close>

fun updateAll ::
  "('m \<Rightarrow> string \<times> error option) \<Rightarrow> (HealthState \<Rightarrow> HealthState \<Rightarrow> int) \<Rightarrow>
   (NodeName \<times> 'm updateEnv) list \<Rightarrow> 'm replication \<Rightarrow>
   error option exec list \<times> 'm replication \<times> 'm storeOp list" where
  "updateAll SHA Compare [] r = ([], r, [])"
| "updateAll SHA Compare ((node, env) # rest) r =
     (case updateOne SHA Compare env node r of (res, r1, ops) \<Rightarrow>
        (case updateAll SHA Compare rest r1 of (ress, r2, ops2) \<Rightarrow> (res # ress, r2, ops @ ops2)))"

text \<open>The calls of \<^verbatim>\<open>SetPodTxn\<close> among the store calls.\<close>

definition isSetPodTxn :: "'m storeOp \<Rightarrow> bool" where
  "isSetPodTxn op = (case op of SetPodTxn n m \<Rightarrow> True | _ \<Rightarrow> False)"

subsection \<open>What a worker does with the result of updateOne\<close>


subsection \<open>The worker pool of Enact\<close>

text \<open>
  \<^verbatim>\<open>Enact\<close> (replication.go 354-401) starts \<^verbatim>\<open>active\<close> worker goroutines. A worker
  takes a node from the queue, builds a context (with a deadline when \<^verbatim>\<open>r.timeout\<close> is
  not \<^verbatim>\<open>NoTimeout\<close>), starts a goroutine that runs \<^verbatim>\<open>updateOne\<close> and cancels the context
  when it is over, and then waits in a \<^verbatim>\<open>select\<close> for the context to be done (going on
  to the next node) or for \<^verbatim>\<open>quitCh\<close> (returning). The goroutines are a transition
  system: a state of the pool, and one step for each thing a goroutine can do.

  A worker is in the \<^verbatim>\<open>range\<close> over the queue, waits for the context of the update it
  started, has returned on \<^verbatim>\<open>quitCh\<close> leaving that update behind, or has returned at the
  end of the queue.
\<close>

datatype worker = Ranging | Waiting nat | Abandoned nat | Finished

text \<open>
  \<open>Recv w t\<close>: worker \<open>w\<close> receives the next node and starts its update; \<open>t\<close> is the
  outcome of \<^verbatim>\<open>r.timeout != NoTimeout\<close>, read under the lock. \<open>QueueEnd w\<close>: worker \<open>w\<close>
  finds the queue closed and empty. \<open>Return g\<close>: the call of \<^verbatim>\<open>updateOne\<close> in update \<open>g\<close>
  returns, and the deferred \<^verbatim>\<open>cancel()\<close> makes its context done. \<open>Deadline g\<close>: the
  deadline of the context of update \<open>g\<close> passes. \<open>CtxDone w\<close>: the \<^verbatim>\<open>select\<close> of worker
  \<open>w\<close> takes \<^verbatim>\<open>ctx.Done()\<close>. \<open>CloseQuit\<close>: \<^verbatim>\<open>quitCh\<close> is closed. \<open>SeeQuit w\<close>: the
  \<^verbatim>\<open>select\<close> of worker \<open>w\<close> takes \<^verbatim>\<open>quitCh\<close>.
\<close>

datatype event =
    Recv nat bool
  | QueueEnd nat
  | Return nat
  | Deadline nat
  | CtxDone nat
  | CloseQuit
  | SeeQuit nat

text \<open>
  \<open>inflight\<close>: the updates whose call of \<^verbatim>\<open>updateOne\<close> has started and not returned.
  \<open>ctxDone\<close>: the updates whose context is done. \<open>deadlines\<close>: the updates whose context
  has a deadline. \<open>assigned\<close>: which node each update is for.
\<close>

record pool =
  workers :: "worker list"
  queue :: "NodeName list"
  inflight :: "nat set"
  ctxDone :: "nat set"
  deadlines :: "nat set"
  assigned :: "(nat \<times> NodeName) list"
  poolQuit :: signal
  nextCtx :: nat

definition startPool :: "int \<Rightarrow> NodeName list \<Rightarrow> pool" where
  "startPool act ns =
     \<lparr>workers = replicate (nat act) Ranging, queue = ns, inflight = {}, ctxDone = {},
      deadlines = {}, assigned = [], poolQuit = Open, nextCtx = 0\<rparr>"

text \<open>One step; \<open>None\<close> when the goroutine cannot take it in this state.\<close>

fun step :: "event \<Rightarrow> pool \<Rightarrow> pool option" where
  "step (Recv w hasTimeout) p =
     (if w < length (workers p) \<and> workers p ! w = Ranging \<and> queue p \<noteq> [] then
        Some (p\<lparr>workers := (workers p)[w := Waiting (nextCtx p)],
                queue := tl (queue p),
                inflight := insert (nextCtx p) (inflight p),
                deadlines := (if hasTimeout then insert (nextCtx p) (deadlines p) else deadlines p),
                assigned := assigned p @ [(nextCtx p, hd (queue p))],
                nextCtx := Suc (nextCtx p)\<rparr>)
      else None)"
| "step (QueueEnd w) p =
     (if w < length (workers p) \<and> workers p ! w = Ranging \<and> queue p = [] then
        Some (p\<lparr>workers := (workers p)[w := Finished]\<rparr>)
      else None)"
| "step (Return g) p =
     (if g \<in> inflight p then
        Some (p\<lparr>inflight := inflight p - {g}, ctxDone := insert g (ctxDone p)\<rparr>)
      else None)"
| "step (Deadline g) p =
     (if g \<in> deadlines p \<and> g \<notin> ctxDone p then Some (p\<lparr>ctxDone := insert g (ctxDone p)\<rparr>)
      else None)"
| "step (CtxDone w) p =
     (if w < length (workers p) then
        (case workers p ! w of
           Waiting g \<Rightarrow>
             if g \<in> ctxDone p then Some (p\<lparr>workers := (workers p)[w := Ranging]\<rparr>) else None
         | _ \<Rightarrow> None)
      else None)"
| "step CloseQuit p =
     (case close_signal (poolQuit p) of None \<Rightarrow> None | Some c \<Rightarrow> Some (p\<lparr>poolQuit := c\<rparr>))"
| "step (SeeQuit w) p =
     (if w < length (workers p) then
        (case workers p ! w of
           Waiting g \<Rightarrow>
             if poolQuit p = Closed then Some (p\<lparr>workers := (workers p)[w := Abandoned g]\<rparr>)
             else None
         | _ \<Rightarrow> None)
      else None)"

fun run :: "event list \<Rightarrow> pool \<Rightarrow> pool option" where
  "run [] p = Some p"
| "run (e # es) p = (case step e p of None \<Rightarrow> None | Some p' \<Rightarrow> run es p')"

definition isDeadline :: "event \<Rightarrow> bool" where
  "isDeadline e = (case e of Deadline g \<Rightarrow> True | _ \<Rightarrow> False)"

text \<open>
  For the proofs: the updates a worker answers for (it waits for them, or left them
  behind at \<^verbatim>\<open>quitCh\<close>), and the invariant of the pool.
\<close>

definition owned :: "pool \<Rightarrow> nat set" where
  "owned p = {g. Waiting g \<in> set (workers p) \<or> Abandoned g \<in> set (workers p)}"

definition pool_inv :: "pool \<Rightarrow> bool" where
  "pool_inv p \<longleftrightarrow>
     inflight p - ctxDone p \<subseteq> owned p \<and> ctxDone p \<subseteq> {..<nextCtx p}
     \<and> inflight p \<subseteq> {..<nextCtx p} \<and> deadlines p \<subseteq> {..<nextCtx p}"

subsection \<open>Taking the replication lock\<close>

text \<open>
  What \<^verbatim>\<open>session.Lock\<close> answers: the unlocker, the typed
  \<^verbatim>\<open>consul.AlreadyLockedError\<close>, or another error.
\<close>

datatype lockAnswer = Granted | AlreadyLockedError | LockError error

text \<open>
  The errors \<^verbatim>\<open>lock\<close> and \<^verbatim>\<open>lockHosts\<close> return, one constructor for each
  \<^verbatim>\<open>util.Errorf\<close> of the code with the values formatted into it, and the errors of the
  store passed on as they are.
\<close>

datatype lockFailure =
    CouldNotDetermineHolder error
  | BlockedByDelay
  | UnableToDestroyHolder string error
  | AlreadyHeldBy string
  | OtherLockError error
  | NewSessionError error

datatype call =
    CallNewSession | CallLock | CallLockHolder | CallDestroyLockHolder string | CallSessionDestroy

text \<open>
  The store and the session (interfaces of another package) over a state \<open>'w\<close> of the
  coordination backend: each operation answers and changes the state.
  \<^verbatim>\<open>LockHolder\<close> answers the holder, its id and an error.
\<close>

record 'w Store =
  NewSession :: "'w \<Rightarrow> error option \<times> 'w"
  sessionLock :: "'w \<Rightarrow> lockAnswer \<times> 'w"
  sessionDestroy :: "'w \<Rightarrow> 'w"
  LockHolder :: "'w \<Rightarrow> (string \<times> string \<times> error option) \<times> 'w"
  DestroyLockHolder :: "string \<Rightarrow> 'w \<Rightarrow> error option \<times> 'w"

text \<open>
  \<^verbatim>\<open>lock\<close> (replication.go 233-262): the error (\<open>None\<close> is success), the state of the
  backend, and the calls made. The only recursive call passes \<open>False\<close>.
\<close>

function lock :: "'w Store \<Rightarrow> bool \<Rightarrow> 'w \<Rightarrow> lockFailure option \<times> 'w \<times> call list" where
  "lock st overrideLock w =
     (case sessionLock st w of
        (AlreadyLockedError, w1) \<Rightarrow>
          (case LockHolder st w1 of ((holder, ident, herr), w2) \<Rightarrow>
             (case herr of
                Some e \<Rightarrow> (Some (CouldNotDetermineHolder e), w2, [CallLock, CallLockHolder])
              | None \<Rightarrow>
                  if holder = [] then (Some BlockedByDelay, w2, [CallLock, CallLockHolder])
                  else if overrideLock then
                    (case DestroyLockHolder st ident w2 of
                       (Some e, w3) \<Rightarrow>
                         (Some (UnableToDestroyHolder holder e), w3,
                          [CallLock, CallLockHolder, CallDestroyLockHolder ident])
                     | (None, w3) \<Rightarrow>
                         (case lock st False w3 of (res, w4, calls) \<Rightarrow>
                            (res, w4, [CallLock, CallLockHolder, CallDestroyLockHolder ident] @ calls)))
                  else (Some (AlreadyHeldBy holder), w2, [CallLock, CallLockHolder])))
      | (Granted, w1) \<Rightarrow> (None, w1, [CallLock])
      | (LockError e, w1) \<Rightarrow> (Some (OtherLockError e), w1, [CallLock]))"
  by pat_completeness auto
termination
  by (relation "measure (\<lambda>(st, overrideLock, w). if overrideLock then 1 else 0)") auto

declare lock.simps [simp del]

text \<open>\<^verbatim>\<open>lockHosts\<close> (replication.go 212-229).\<close>

definition lockHosts :: "'w Store \<Rightarrow> bool \<Rightarrow> 'w \<Rightarrow> lockFailure option \<times> 'w \<times> call list" where
  "lockHosts st overrideLock w =
     (case NewSession st w of
        (Some e, w1) \<Rightarrow> (Some (NewSessionError e), w1, [CallNewSession])
      | (None, w1) \<Rightarrow>
          (case lock st overrideLock w1 of
             (Some e, w2, calls) \<Rightarrow>
               (Some e, sessionDestroy st w2, CallNewSession # calls @ [CallSessionDestroy])
           | (None, w2, calls) \<Rightarrow> (None, w2, CallNewSession # calls)))"

text \<open>
  A backend for concrete runs: the state is the line of sessions that hold or will hold
  the lock (holder name and session id), the first one holding it; a holder with the empty
  name stands for the lock delay after a release. The session of the replication is
  \<open>session-r\<close>.
\<close>

definition fakeStore :: "(string \<times> string) list Store" where
  "fakeStore =
     \<lparr>NewSession = (\<lambda>w. (None, w)),
      sessionLock = (\<lambda>w. if w = [] then (Granted, [(''replication'', ''session-r'')])
                          else (AlreadyLockedError, w)),
      sessionDestroy = (\<lambda>w. filter (\<lambda>(h, i). i \<noteq> ''session-r'') w),
      LockHolder = (\<lambda>w. case w of [] \<Rightarrow> (([], [], None), w) | (h, i) # rest \<Rightarrow> ((h, i, None), w)),
      DestroyLockHolder = (\<lambda>i w. (None, filter (\<lambda>(h, j). j \<noteq> i) w))\<rparr>"

subsection \<open>The reality query and its semaphore\<close>

text \<open>
  \<^verbatim>\<open>queryReality\<close> (replication.go 589-604) loops over a \<^verbatim>\<open>select\<close> with three cases:
  the send on the semaphore \<^verbatim>\<open>concurrentRealityRequests\<close>, a timer of 5 seconds and a
  timer of 1 minute. Both timers are made by \<^verbatim>\<open>time.After\<close> when the \<^verbatim>\<open>select\<close> is
  entered, so they run from the start of the current turn of the loop. Time is counted in
  seconds; \<open>free t\<close> says whether the semaphore has a slot at time \<open>t\<close>.
\<close>

datatype selected = SemaphoreAcquired | After5s | After1m

text \<open>The first time from \<open>t0\<close> on, before \<open>t0 + horizon\<close>, at which a slot is free.\<close>

definition firstFree :: "(nat \<Rightarrow> bool) \<Rightarrow> nat \<Rightarrow> nat \<Rightarrow> nat option" where
  "firstFree free t0 horizon = find free [t0 ..< t0 + horizon]"

text \<open>
  The \<^verbatim>\<open>select\<close> takes the case that is ready first, at the time it becomes ready; among
  cases ready at the same time the order of the source is used here (Go picks one of them
  at random).
\<close>

definition selectCase :: "nat option \<Rightarrow> nat \<Rightarrow> nat \<Rightarrow> selected \<times> nat" where
  "selectCase tSem t5 t60 =
     (let wake = min (case tSem of Some t \<Rightarrow> min t t5 | None \<Rightarrow> t5) t60
      in if tSem = Some wake then (SemaphoreAcquired, wake)
         else if t5 = wake then (After5s, wake)
         else (After1m, wake))"

definition realityTimeout :: error where
  "realityTimeout = Errorf ''Timed out while waiting for reality query rate limit''"

text \<open>
  The loop, for at most \<open>fuel\<close> turns from time \<open>t0\<close>: the result (\<open>pod\<close> is what
  \<^verbatim>\<open>store.Pod\<close> answers), the time, and the lines logged.
\<close>

fun queryReality ::
  "(nat \<Rightarrow> bool) \<Rightarrow> ('m option \<times> error option) \<Rightarrow> nat \<Rightarrow> nat \<Rightarrow>
   ('m option \<times> error option) exec \<times> nat \<times> logline list" where
  "queryReality free pod 0 t0 = (StillRunning, t0, [])"
| "queryReality free pod (Suc fuel) t0 =
     (case selectCase (firstFree free t0 60) (t0 + 5) (t0 + 60) of
        (SemaphoreAcquired, t) \<Rightarrow> (Returns pod, t, [])
      | (After5s, t) \<Rightarrow>
          (case queryReality free pod fuel t of (res, t', logs) \<Rightarrow>
             (res, t', Info ''Waiting on concurrentRealityRequests for pod'' # logs))
      | (After1m, t) \<Rightarrow> (Returns (None, Some realityTimeout), t, [Error [] (Some realityTimeout)]))"

subsection \<open>The health aggregator\<close>

text \<open>
  \<^verbatim>\<open>podHealth\<close> (health_aggregator.go). \<^verbatim>\<open>curHealth\<close> is a Go map, which can be nil:
  \<open>None\<close> is the nil map. \<open>watching\<close> says whether \<^verbatim>\<open>beginWatch\<close> is still in its loop.
\<close>

record podHealth =
  curHealth :: "(NodeName \<rightharpoonup> Result) option"
  quit :: signal
  watching :: bool

text \<open>
  What happens to a \<^verbatim>\<open>podHealth\<close>: the \<^verbatim>\<open>select\<close> of \<^verbatim>\<open>beginWatch\<close> receives a map from
  \<^verbatim>\<open>resultCh\<close> (any value of the channel's type, the nil map included), finds
  \<^verbatim>\<open>resultCh\<close> closed, or takes the \<^verbatim>\<open>quit\<close> case; \<^verbatim>\<open>Stop()\<close> is called; or the
  caller of \<^verbatim>\<open>AggregateHealth\<close>, holding the lock of the condition, tests whether
  \<^verbatim>\<open>curHealth\<close> is nil.
\<close>

datatype watchEvent =
    Emit "(NodeName \<rightharpoonup> Result) option" | ResultClosed | QuitSelected | StopCalled
  | WaiterChecks

definition newPodHealth :: podHealth where
  "newPodHealth = \<lparr>curHealth = None, quit = Open, watching = True\<rparr>"

text \<open>The deferred function of \<^verbatim>\<open>beginWatch\<close> (lines 57-65), run when it returns.\<close>

definition exitWatch :: "podHealth \<Rightarrow> podHealth" where
  "exitWatch p =
     (if curHealth p = None then p\<lparr>curHealth := Some Map.empty, watching := False\<rparr>
      else p\<lparr>watching := False\<rparr>)"

text \<open>
  One event. A received map is stored as it is (lines 75-78). The \<^verbatim>\<open>quit\<close> case can be
  taken only once \<^verbatim>\<open>quit\<close> is closed. \<^verbatim>\<open>Stop()\<close> (lines 119-121) closes \<^verbatim>\<open>quit\<close>.
\<close>

fun watchStep :: "watchEvent \<Rightarrow> podHealth \<Rightarrow> podHealth" where
  "watchStep (Emit res) p = (if watching p then p\<lparr>curHealth := res\<rparr> else p)"
| "watchStep ResultClosed p = (if watching p then exitWatch p else p)"
| "watchStep QuitSelected p = (if watching p \<and> quit p = Closed then exitWatch p else p)"
| "watchStep StopCalled p = p\<lparr>quit := Closed\<rparr>"
| "watchStep WaiterChecks p = p"

text \<open>\<^verbatim>\<open>beginWatch\<close> (lines 41-81) over a run of events.\<close>

fun beginWatch :: "watchEvent list \<Rightarrow> podHealth \<Rightarrow> podHealth" where
  "beginWatch [] p = p"
| "beginWatch (e # evs) p = beginWatch evs (watchStep e p)"

text \<open>
  \<^verbatim>\<open>AggregateHealth\<close> (lines 22-39) starts \<^verbatim>\<open>beginWatch\<close> and waits on the condition
  while \<^verbatim>\<open>curHealth\<close> is nil: it returns at the first of its tests that finds the map
  non-nil. Over a run of events: the \<^verbatim>\<open>podHealth\<close> it returns and the events still to
  come, or \<open>None\<close> while it is still waiting at the end of the run.
\<close>

fun AggregateHealth :: "watchEvent list \<Rightarrow> podHealth \<Rightarrow> (podHealth \<times> watchEvent list) option" where
  "AggregateHealth [] p = None"
| "AggregateHealth (WaiterChecks # evs) p =
     (if curHealth p = None then AggregateHealth evs p else Some (p, evs))"
| "AggregateHealth (e # evs) p = AggregateHealth evs (watchStep e p)"

text \<open>
  \<^verbatim>\<open>GetHealth\<close> and \<^verbatim>\<open>numOfHealth\<close> (lines 83-101); a lookup in a nil map finds
  nothing.
\<close>

definition GetHealth :: "podHealth \<Rightarrow> NodeName \<Rightarrow> Result \<times> bool" where
  "GetHealth p host =
     (case curHealth p of
        None \<Rightarrow> (zeroResult, False)
      | Some m \<Rightarrow> (case m host of None \<Rightarrow> (zeroResult, False) | Some h \<Rightarrow> (h, True)))"

definition numOfHealth :: "podHealth \<Rightarrow> HealthState \<Rightarrow> NodeName list \<Rightarrow> nat" where
  "numOfHealth p status hosts =
     length (filter (\<lambda>host. case GetHealth p host of (h, ok) \<Rightarrow> ok \<and> Status h = status) hosts)"

subsection \<open>The rollout order\<close>

text \<open>
  \<^verbatim>\<open>allocation.Node\<close> and \<^verbatim>\<open>health.ServiceNodeStatus\<close>, with the fields the sources use
  (the node of a status is named \<open>StatusNode\<close> here).
\<close>

record Node =
  Name :: string
  IsMaster :: bool

record ServiceNodeStatus =
  StatusNode :: string
  Version :: string
  Healthy :: bool

text \<open>\<^verbatim>\<open>compare\<close> and its three values (\<^verbatim>\<open>lessThan\<close>, \<^verbatim>\<open>equal\<close>, \<^verbatim>\<open>greaterThan\<close>).\<close>

datatype compare = lessThan_c | equal_c | greaterThan_c

definition compareFromBool :: "bool \<Rightarrow> compare" where
  "compareFromBool b = (if b then lessThan_c else greaterThan_c)"

text \<open>\<^verbatim>\<open>compareErrors\<close> (lines 186-206 of the orderer).\<close>

definition compareErrors :: "error option \<Rightarrow> error option \<Rightarrow> compare" where
  "compareErrors iErr jErr =
     (if iErr = None \<and> jErr \<noteq> None then greaterThan_c
      else if iErr \<noteq> None \<and> jErr = None then lessThan_c
      else if iErr = None \<and> jErr = None then equal_c
      else if iErr = jErr \<and> jErr = Some NoStatusGiven then equal_c
      else if iErr = Some NoStatusGiven \<and> jErr \<noteq> Some NoStatusGiven then greaterThan_c
      else if iErr \<noteq> Some NoStatusGiven \<and> jErr = Some NoStatusGiven then lessThan_c
      else equal_c)"

text \<open>
  \<^verbatim>\<open>compareHealth\<close> (lines 208-222). The two statuses are pointers; every path reads
  \<^verbatim>\<open>Healthy\<close> of both before it returns, so a nil pointer panics (\<open>None\<close>).
\<close>

definition compareHealth ::
  "Node \<Rightarrow> Node \<Rightarrow> ServiceNodeStatus option \<Rightarrow> ServiceNodeStatus option \<Rightarrow> compare option" where
  "compareHealth iNode jNode iHealth jHealth =
     (case (iHealth, jHealth) of
        (Some ih, Some jh) \<Rightarrow>
          Some (if Healthy ih \<and> \<not> Healthy jh then greaterThan_c
                else if Healthy ih \<and> Healthy jh then compareFromBool (Name iNode < Name jNode)
                else if \<not> Healthy ih \<and> Healthy jh then lessThan_c
                else if \<not> Healthy ih \<and> \<not> Healthy jh then compareFromBool (Name iNode < Name jNode)
                else equal_c)
      | _ \<Rightarrow> None)"

text \<open>
  The body of \<^verbatim>\<open>Less\<close> (lines 170-184) on two nodes. \<^verbatim>\<open>ForNode\<close> of
  \<^verbatim>\<open>health.ServiceStatus\<close> is not among the sources and is a parameter: it answers a
  status pointer and an error for a node name.
\<close>

definition rolloutLess ::
  "(string \<Rightarrow> ServiceNodeStatus option \<times> error option) \<Rightarrow> Node \<Rightarrow> Node \<Rightarrow> bool option" where
  "rolloutLess ForNode iNode jNode =
     (case ForNode (Name iNode) of (iHealth, iErr) \<Rightarrow>
      case ForNode (Name jNode) of (jHealth, jErr) \<Rightarrow>
        (let comp = compareErrors iErr jErr in
         if comp \<noteq> equal_c then Some (comp = lessThan_c)
         else (case compareHealth iNode jNode iHealth jHealth of
                 None \<Rightarrow> None
               | Some comp2 \<Rightarrow> if comp2 \<noteq> equal_c then Some (comp2 = lessThan_c) else Some False)))"

text \<open>\<^verbatim>\<open>Less\<close> on two indices; an index out of range panics.\<close>

definition Less ::
  "(string \<Rightarrow> ServiceNodeStatus option \<times> error option) \<Rightarrow> Node list \<Rightarrow> nat \<Rightarrow> nat \<Rightarrow> bool option" where
  "Less ForNode ns i j =
     (if i < length ns \<and> j < length ns then rolloutLess ForNode (ns ! i) (ns ! j) else None)"

text \<open>
  \<^verbatim>\<open>getRolloutOrder\<close> (lines 228-239) sorts the slice of nodes with \<^verbatim>\<open>sort.Sort\<close> of
  the Go library and sends the nodes on the channel in that order. On a slice of at most
  6 elements \<^verbatim>\<open>sort.Sort\<close> is the library's \<^verbatim>\<open>insertionSort\<close>: each element in turn is
  swapped with its left neighbour while it is \<^verbatim>\<open>Less\<close> than that neighbour. The inner
  loop takes the element and the part of the slice before it, nearest neighbour first, and
  returns that part with the element in its place; a panic of \<^verbatim>\<open>Less\<close> (\<open>None\<close>) ends
  the sort.
\<close>

fun insertLeft ::
  "(string \<Rightarrow> ServiceNodeStatus option \<times> error option) \<Rightarrow> Node \<Rightarrow> Node list \<Rightarrow> Node list option" where
  "insertLeft ForNode x [] = Some [x]"
| "insertLeft ForNode x (y # before) =
     (case rolloutLess ForNode x y of
        None \<Rightarrow> None
      | Some True \<Rightarrow> map_option (\<lambda>r. y # r) (insertLeft ForNode x before)
      | Some False \<Rightarrow> Some (x # y # before))"

fun insertionSort ::
  "(string \<Rightarrow> ServiceNodeStatus option \<times> error option) \<Rightarrow> Node list \<Rightarrow> Node list \<Rightarrow> Node list option" where
  "insertionSort ForNode done [] = Some (rev done)"
| "insertionSort ForNode done (x # rest) =
     (case insertLeft ForNode x done of
        None \<Rightarrow> None
      | Some done' \<Rightarrow> insertionSort ForNode done' rest)"

text \<open>
  The nodes \<^verbatim>\<open>getRolloutOrder\<close> sends, in order (\<open>None\<close>: a panic). What \<^verbatim>\<open>sort.Sort\<close>
  does with a longer slice (its quicksort and heapsort passes) is not modelled and is the
  parameter \<open>longSort\<close>.
\<close>

definition getRolloutOrder ::
  "((string \<Rightarrow> ServiceNodeStatus option \<times> error option) \<Rightarrow> Node list \<Rightarrow> Node list option) \<Rightarrow>
   (string \<Rightarrow> ServiceNodeStatus option \<times> error option) \<Rightarrow> Node list \<Rightarrow> Node list option" where
  "getRolloutOrder longSort ForNode ns =
     (if length ns \<le> 6 then insertionSort ForNode [] ns else longSort ForNode ns)"

text \<open>
  What \<^verbatim>\<open>sort.Sort\<close> promises for a slice of any length: a permutation in which no
  element is \<^verbatim>\<open>Less\<close> than an earlier one.
\<close>

definition sort_Sort_post ::
  "(string \<Rightarrow> ServiceNodeStatus option \<times> error option) \<Rightarrow> Node list \<Rightarrow> Node list \<Rightarrow> bool" where
  "sort_Sort_post ForNode xs ys \<longleftrightarrow>
     mset ys = mset xs \<and> sorted_wrt (\<lambda>a b. rolloutLess ForNode b a = Some False) ys"

text \<open>
  A \<^verbatim>\<open>ForNode\<close> for concrete runs: the first status of the list for the node, and
  \<^verbatim>\<open>NoStatusGiven\<close> with a nil pointer when there is none.
\<close>

definition ForNode_of ::
  "ServiceNodeStatus list \<Rightarrow> string \<Rightarrow> ServiceNodeStatus option \<times> error option" where
  "ForNode_of statuses node =
     (case find (\<lambda>s. StatusNode s = node) statuses of
        Some s \<Rightarrow> (Some s, None)
      | None \<Rightarrow> (None, Some NoStatusGiven))"

text \<open>
  For the statements: a node has a status (a pointer and no error), the node is healthy
  in it, and the key the order sorts such nodes by (health, then name).
\<close>

definition hasStatus :: "(string \<Rightarrow> ServiceNodeStatus option \<times> error option) \<Rightarrow> Node \<Rightarrow> bool" where
  "hasStatus ForNode n = (case ForNode (Name n) of (Some s, None) \<Rightarrow> True | _ \<Rightarrow> False)"

definition nodeHealthy :: "(string \<Rightarrow> ServiceNodeStatus option \<times> error option) \<Rightarrow> Node \<Rightarrow> bool" where
  "nodeHealthy ForNode n = (case fst (ForNode (Name n)) of Some s \<Rightarrow> Healthy s | None \<Rightarrow> False)"

definition rolloutKey ::
  "(string \<Rightarrow> ServiceNodeStatus option \<times> error option) \<Rightarrow> Node \<Rightarrow> bool \<times> string" where
  "rolloutKey ForNode n = (nodeHealthy ForNode n, Name n)"

subsection \<open>Concrete values for the runs below\<close>

text \<open>
  A manifest that stands for its own content hash, and the answers of the collaborators
  for three nodes: one with nothing installed, on which the update goes through; one whose
  reality is already the manifest \<open>cur\<close>; and one on which the transaction cannot be built.
\<close>

definition hash_of :: "string \<Rightarrow> string \<times> error option" where
  "hash_of m = (m, None)"

definition envFresh :: "string \<Rightarrow> string updateEnv" where
  "envFresh target =
     \<lparr>reality = (None, Some NoCurrentManifest), setPodTxn = None, setLabelsTxn = None,
      commit = (True, None),
      realityPolls = [Tick (None, Some NoCurrentManifest), Tick (Some target, None)],
      healthPolls = [Tick None, Tick (Some (zeroResult\<lparr>Status := Passing\<rparr>))]\<rparr>"

definition envCurrent :: "string \<Rightarrow> string updateEnv" where
  "envCurrent cur =
     \<lparr>reality = (Some cur, None), setPodTxn = None, setLabelsTxn = None,
      commit = (True, None), realityPolls = [], healthPolls = []\<rparr>"

definition envBuildError :: "string updateEnv" where
  "envBuildError =
     \<lparr>reality = (None, Some NoCurrentManifest),
      setPodTxn = Some (Errorf ''could not build the transaction''), setLabelsTxn = None,
      commit = (True, None), realityPolls = [], healthPolls = []\<rparr>"

text \<open>
  A service status in which \<open>host2\<close> is unhealthy and \<open>host1\<close> and \<open>host3\<close> are healthy,
  and a node of an allocation by its name.
\<close>

definition statusOfThree :: "ServiceNodeStatus list" where
  "statusOfThree =
     [\<lparr>StatusNode = ''host1'', Version = ''abc123'', Healthy = True\<rparr>,
      \<lparr>StatusNode = ''host2'', Version = ''abc123'', Healthy = False\<rparr>,
      \<lparr>StatusNode = ''host3'', Version = ''abc123'', Healthy = True\<rparr>]"

definition allocNode :: "string \<Rightarrow> Node" where
  "allocNode n = \<lparr>Name = n, IsMaster = False\<rparr>"

section \<open>Lemmas\<close>

subsection \<open>The per-node updater\<close>

lemma updateOne_skip:
  "\<not> shouldScheduleForNode SHA (reality env) r \<Longrightarrow>
   updateOne SHA Compare env node r = (Returns None, r, [])"
  by (simp add: updateOne_def Let_def)

lemma updateOne_scheduled:
  assumes "shouldScheduleForNode SHA (reality env) r"
      and "updateOne SHA Compare env node r = (res, r', ops)"
  shows "length (filter isSetPodTxn ops) = 1
         \<and> hd ops = SetPodTxn node (GetManifest r)
         \<and> r' = (if res = StillRunning then r else r\<lparr>completedCount := completedCount r + 1\<rparr>)"
  using assms
  by (auto simp: updateOne_def isSetPodTxn_def Let_def
           split: option.splits prod.splits exec.splits if_splits)

lemma updateOne_waits:
  assumes "shouldScheduleForNode SHA (reality env) r" and "setPodTxn env = None"
    and "podLabels r = [] \<or> setLabelsTxn env = None" and "commit env = (True, None)"
  shows "fst (updateOne SHA Compare env node r) =
           (case ensureInReality SHA (fst (SHA (GetManifest r))) (realityPolls env) of
              Returns None \<Rightarrow> ensureHealthy Compare (threshold r) (healthPolls env)
            | x \<Rightarrow> x)"
  using assms
  by (auto simp: updateOne_def Let_def split: option.splits exec.splits)

lemma shouldSchedule_match:
  "reality env = (Some nr, None) \<Longrightarrow> SHA nr = (h, None) \<Longrightarrow> SHA (GetManifest r) = (h, None) \<Longrightarrow>
   \<not> shouldScheduleForNode SHA (reality env) r"
  by (simp add: shouldScheduleForNode_def)

lemma updateAll_skip:
  "\<forall>x \<in> set nes. \<not> shouldScheduleForNode SHA (reality (snd x)) r \<Longrightarrow>
   updateAll SHA Compare nes r = (replicate (length nes) (Returns None), r, [])"
  by (induction nes) (auto simp: updateOne_skip)

subsection \<open>ensureHealthy returns nil at the first tick that meets the threshold\<close>

lemma ensureHealthy_nil_iff:
  "ensureHealthy Compare thr evs = Returns None \<longleftrightarrow>
     (\<exists>pre h post. evs = map Tick pre @ Tick h # post
        \<and> (\<forall>x \<in> set pre. Compare (nodeStatus x) (effectiveThreshold thr) < 0)
        \<and> 0 \<le> Compare (nodeStatus h) (effectiveThreshold thr))"
proof (induction evs)
  case Nil
  then show ?case by simp
next
  case (Cons e evs)
  show ?case
  proof (cases e)
    case (Tick h0)
    show ?thesis
    proof (cases "Compare (nodeStatus h0) (effectiveThreshold thr) < 0")
      case True
      have "(\<exists>pre h post. Tick h0 # evs = map Tick pre @ Tick h # post
              \<and> (\<forall>x \<in> set pre. Compare (nodeStatus x) (effectiveThreshold thr) < 0)
              \<and> 0 \<le> Compare (nodeStatus h) (effectiveThreshold thr))
            \<longleftrightarrow> (\<exists>pre h post. evs = map Tick pre @ Tick h # post
              \<and> (\<forall>x \<in> set pre. Compare (nodeStatus x) (effectiveThreshold thr) < 0)
              \<and> 0 \<le> Compare (nodeStatus h) (effectiveThreshold thr))" (is "?L \<longleftrightarrow> ?R")
      proof
        assume ?L
        then obtain pre h post where p: "Tick h0 # evs = map Tick pre @ Tick h # post"
          "\<forall>x \<in> set pre. Compare (nodeStatus x) (effectiveThreshold thr) < 0"
          "0 \<le> Compare (nodeStatus h) (effectiveThreshold thr)" by blast
        show ?R
        proof (cases pre)
          case Nil
          with p True show ?thesis by auto
        next
          case (Cons x pre')
          with p show ?thesis by auto
        qed
      next
        assume ?R
        then obtain pre h post where p: "evs = map Tick pre @ Tick h # post"
          "\<forall>x \<in> set pre. Compare (nodeStatus x) (effectiveThreshold thr) < 0"
          "0 \<le> Compare (nodeStatus h) (effectiveThreshold thr)" by blast
        have "Tick h0 # evs = map Tick (h0 # pre) @ Tick h # post" using p by simp
        moreover have "\<forall>x \<in> set (h0 # pre). Compare (nodeStatus x) (effectiveThreshold thr) < 0"
          using p True by simp
        ultimately show ?L using p(3) by blast
      qed
      with True Tick Cons.IH show ?thesis by (simp add: Let_def)
    next
      case False
      have "Tick h0 # evs = map Tick [] @ Tick h0 # evs" by simp
      with False have "\<exists>pre h post. Tick h0 # evs = map Tick pre @ Tick h # post
              \<and> (\<forall>x \<in> set pre. Compare (nodeStatus x) (effectiveThreshold thr) < 0)
              \<and> 0 \<le> Compare (nodeStatus h) (effectiveThreshold thr)"
        by (metis empty_iff list.set(1) not_less)
      with False Tick show ?thesis by (simp add: Let_def)
    qed
  qed (auto simp: Cons_eq_append_conv Cons_eq_map_conv)
qed

subsection \<open>The worker pool\<close>

lemma set_update_keep: "x \<in> set xs \<Longrightarrow> x \<noteq> xs ! i \<Longrightarrow> x \<in> set (xs[i := y])"
  by (metis in_set_conv_nth length_list_update nth_list_update_neq)

lemma set_update_new: "i < length xs \<Longrightarrow> y \<in> set (xs[i := y])"
  by (simp add: set_update_memI)

lemma owned_finite: "finite (owned p)"
proof -
  have "owned p \<subseteq> (\<lambda>w. case w of Waiting g \<Rightarrow> g | Abandoned g \<Rightarrow> g | _ \<Rightarrow> 0) ` set (workers p)"
    by (force simp: owned_def image_iff)
  then show ?thesis by (rule finite_subset) simp
qed

lemma owned_card: "card (owned p) \<le> length (workers p)"
proof -
  let ?f = "\<lambda>w. case w of Waiting g \<Rightarrow> g | Abandoned g \<Rightarrow> g | _ \<Rightarrow> 0"
  have "owned p \<subseteq> ?f ` set (workers p)"
    by (force simp: owned_def image_iff)
  then have "card (owned p) \<le> card (?f ` set (workers p))"
    by (simp add: card_mono)
  also have "\<dots> \<le> card (set (workers p))" by (simp add: card_image_le)
  also have "\<dots> \<le> length (workers p)" by (rule card_length)
  finally show ?thesis .
qed

lemma step_length: "step e p = Some p' \<Longrightarrow> length (workers p') = length (workers p)"
  by (cases e) (auto split: if_splits worker.splits option.splits)

lemma step_inv:
  assumes "step e p = Some p'" and "pool_inv p"
  shows "pool_inv p'"
proof (cases e)
  case (Recv w t)
  with assms have c: "w < length (workers p)" "workers p ! w = Ranging"
    and p': "p' = p\<lparr>workers := (workers p)[w := Waiting (nextCtx p)],
                queue := tl (queue p),
                inflight := insert (nextCtx p) (inflight p),
                deadlines := (if t then insert (nextCtx p) (deadlines p) else deadlines p),
                assigned := assigned p @ [(nextCtx p, hd (queue p))],
                nextCtx := Suc (nextCtx p)\<rparr>"
    by (auto split: if_splits)
  have "owned p \<subseteq> owned p'"
    using c by (auto simp: owned_def p' intro: set_update_keep)
  moreover have "nextCtx p \<in> owned p'"
    using c by (simp add: owned_def p' set_update_new)
  ultimately show ?thesis using assms(2) by (auto simp: pool_inv_def p')
next
  case (QueueEnd w)
  with assms have c: "w < length (workers p)" "workers p ! w = Ranging"
    and p': "p' = p\<lparr>workers := (workers p)[w := Finished]\<rparr>"
    by (auto split: if_splits)
  have "owned p \<subseteq> owned p'"
    using c by (auto simp: owned_def p' intro: set_update_keep)
  then show ?thesis using assms(2) by (auto simp: pool_inv_def p')
next
  case (Return g)
  with assms have p': "p' = p\<lparr>inflight := inflight p - {g}, ctxDone := insert g (ctxDone p)\<rparr>"
    and g: "g \<in> inflight p"
    by (auto split: if_splits)
  have "owned p' = owned p" by (simp add: owned_def p')
  then show ?thesis using assms(2) g by (auto simp: pool_inv_def p')
next
  case (Deadline g)
  with assms have p': "p' = p\<lparr>ctxDone := insert g (ctxDone p)\<rparr>" and g: "g \<in> deadlines p"
    by (auto split: if_splits)
  have "owned p' = owned p" by (simp add: owned_def p')
  then show ?thesis using assms(2) g by (auto simp: pool_inv_def p')
next
  case (CtxDone w)
  with assms obtain g where c: "w < length (workers p)" "workers p ! w = Waiting g" "g \<in> ctxDone p"
    and p': "p' = p\<lparr>workers := (workers p)[w := Ranging]\<rparr>"
    by (auto split: if_splits worker.splits)
  have "owned p - {g} \<subseteq> owned p'"
    using c by (auto simp: owned_def p' intro: set_update_keep)
  with c(3) have "inflight p - ctxDone p \<subseteq> owned p'" using assms(2) by (auto simp: pool_inv_def)
  then show ?thesis using assms(2) by (auto simp: pool_inv_def p')
next
  case CloseQuit
  with assms show ?thesis
    by (auto simp: pool_inv_def owned_def split: option.splits)
next
  case (SeeQuit w)
  with assms obtain g where c: "w < length (workers p)" "workers p ! w = Waiting g"
    and p': "p' = p\<lparr>workers := (workers p)[w := Abandoned g]\<rparr>"
    by (auto split: if_splits worker.splits)
  have "owned p - {g} \<subseteq> owned p'"
    using c by (auto simp: owned_def p' intro: set_update_keep)
  moreover have "g \<in> owned p'" using c by (simp add: owned_def p' set_update_new)
  ultimately have "owned p \<subseteq> owned p'" by auto
  then show ?thesis using assms(2) by (auto simp: pool_inv_def p')
qed

lemma step_disjoint:
  assumes "step e p = Some p'" and "pool_inv p" and "\<not> isDeadline e"
    and "inflight p \<inter> ctxDone p = {}"
  shows "inflight p' \<inter> ctxDone p' = {}"
proof (cases e)
  case (Recv w t)
  with assms(1) have p': "inflight p' = insert (nextCtx p) (inflight p)" "ctxDone p' = ctxDone p"
    by (auto split: if_splits)
  have "nextCtx p \<notin> ctxDone p" using assms(2) by (auto simp: pool_inv_def)
  with assms(4) p' show ?thesis by auto
next
  case (Deadline g)
  with assms(3) show ?thesis by (simp add: isDeadline_def)
qed (use assms in \<open>auto split: if_splits worker.splits option.splits\<close>)

lemma run_inv:
  "run evs p = Some p' \<Longrightarrow> pool_inv p \<Longrightarrow>
   pool_inv p' \<and> length (workers p') = length (workers p)"
proof (induction evs arbitrary: p)
  case Nil
  then show ?case by simp
next
  case (Cons e evs)
  from Cons.prems(1) obtain p1 where s: "step e p = Some p1" and r: "run evs p1 = Some p'"
    by (auto split: option.splits)
  have "pool_inv p1" using step_inv [OF s Cons.prems(2)] .
  with Cons.IH [OF r] step_length [OF s] show ?case by simp
qed

lemma run_disjoint:
  "run evs p = Some p' \<Longrightarrow> pool_inv p \<Longrightarrow> \<forall>e \<in> set evs. \<not> isDeadline e \<Longrightarrow>
   inflight p \<inter> ctxDone p = {} \<Longrightarrow> inflight p' \<inter> ctxDone p' = {}"
proof (induction evs arbitrary: p)
  case Nil
  then show ?case by simp
next
  case (Cons e evs)
  from Cons.prems(1) obtain p1 where s: "step e p = Some p1" and r: "run evs p1 = Some p'"
    by (auto split: option.splits)
  have i: "pool_inv p1" using step_inv [OF s Cons.prems(2)] .
  have d: "inflight p1 \<inter> ctxDone p1 = {}"
    using step_disjoint [OF s Cons.prems(2) _ Cons.prems(4)] Cons.prems(3) by simp
  show ?case using Cons.IH [OF r i _ d] Cons.prems(3) by simp
qed

lemma startPool_inv: "pool_inv (startPool act ns)"
  by (simp add: pool_inv_def startPool_def)

lemma live_bound:
  assumes "run evs (startPool act ns) = Some p"
  shows "card (inflight p - ctxDone p) \<le> nat act"
proof -
  from run_inv [OF assms startPool_inv]
  have i: "pool_inv p" and l: "length (workers p) = nat act" by (simp_all add: startPool_def)
  have "card (inflight p - ctxDone p) \<le> card (owned p)"
    using i owned_finite by (simp add: pool_inv_def card_mono)
  also have "\<dots> \<le> length (workers p)" by (rule owned_card)
  finally show ?thesis using l by simp
qed

lemma inflight_bound:
  assumes "run evs (startPool act ns) = Some p" and "\<forall>e \<in> set evs. \<not> isDeadline e"
  shows "card (inflight p) \<le> nat act"
proof -
  have "inflight p \<inter> ctxDone p = {}"
    using run_disjoint [OF assms(1) startPool_inv assms(2)] by (simp add: startPool_def)
  then have "inflight p - ctxDone p = inflight p" by auto
  with live_bound [OF assms(1)] show ?thesis by simp
qed


subsection \<open>The lock\<close>

lemma lock_no_override:
  "lock st False w =
     (case sessionLock st w of
        (AlreadyLockedError, w1) \<Rightarrow>
          (case LockHolder st w1 of ((holder, ident, herr), w2) \<Rightarrow>
             (case herr of
                Some e \<Rightarrow> (Some (CouldNotDetermineHolder e), w2, [CallLock, CallLockHolder])
              | None \<Rightarrow>
                  if holder = [] then (Some BlockedByDelay, w2, [CallLock, CallLockHolder])
                  else (Some (AlreadyHeldBy holder), w2, [CallLock, CallLockHolder])))
      | (Granted, w1) \<Rightarrow> (None, w1, [CallLock])
      | (LockError e, w1) \<Rightarrow> (Some (OtherLockError e), w1, [CallLock]))"
  by (subst lock.simps) (simp split: prod.splits lockAnswer.splits option.splits)

lemma lock_retry_calls:
  "lock st False w = (res, w', calls) \<Longrightarrow>
     length (filter (\<lambda>c. c = CallLock) calls) = 1 \<and> (\<forall>i. CallDestroyLockHolder i \<notin> set calls)
     \<and> (fst (sessionLock st w) = AlreadyLockedError \<longrightarrow> res \<noteq> None)"
  by (auto simp: lock_no_override split: prod.splits lockAnswer.splits option.splits if_splits)

lemma lock_delay:
  "sessionLock st w = (AlreadyLockedError, w1) \<Longrightarrow> LockHolder st w1 = (([], ident, None), w2) \<Longrightarrow>
   lock st overrideLock w = (Some BlockedByDelay, w2, [CallLock, CallLockHolder])"
  by (subst lock.simps) simp

lemma lock_held:
  "sessionLock st w = (AlreadyLockedError, w1) \<Longrightarrow>
   LockHolder st w1 = ((holder, ident, None), w2) \<Longrightarrow> holder \<noteq> [] \<Longrightarrow>
   lock st False w = (Some (AlreadyHeldBy holder), w2, [CallLock, CallLockHolder])"
  by (simp add: lock_no_override)

lemma lock_override:
  "sessionLock st w = (AlreadyLockedError, w1) \<Longrightarrow>
   LockHolder st w1 = ((holder, ident, None), w2) \<Longrightarrow> holder \<noteq> [] \<Longrightarrow>
   DestroyLockHolder st ident w2 = (None, w3) \<Longrightarrow> lock st False w3 = (res, w4, calls) \<Longrightarrow>
   lock st True w = (res, w4, [CallLock, CallLockHolder, CallDestroyLockHolder ident] @ calls)"
  by (subst lock.simps) simp

lemma lock_destroy_fails:
  "sessionLock st w = (AlreadyLockedError, w1) \<Longrightarrow>
   LockHolder st w1 = ((holder, ident, None), w2) \<Longrightarrow> holder \<noteq> [] \<Longrightarrow>
   DestroyLockHolder st ident w2 = (Some e, w3) \<Longrightarrow>
   lock st True w = (Some (UnableToDestroyHolder holder e), w3,
                     [CallLock, CallLockHolder, CallDestroyLockHolder ident])"
  by (subst lock.simps) simp

lemma lockHosts_failure:
  "NewSession st w = (None, w1) \<Longrightarrow> lock st overrideLock w1 = (Some e, w2, calls) \<Longrightarrow>
   lockHosts st overrideLock w
   = (Some e, sessionDestroy st w2, CallNewSession # calls @ [CallSessionDestroy])"
  by (simp add: lockHosts_def)

subsection \<open>The reality query\<close>

lemma selectCase_never_1m: "fst (selectCase tSem (t0 + 5) (t0 + 60)) \<noteq> After1m"
  by (auto simp: selectCase_def Let_def min_def split: option.splits)

lemma firstFree_never: "firstFree (\<lambda>t. False) t0 h = None"
  by (simp add: firstFree_def find_None_iff)

lemma queryReality_no_timeout:
  "fst (queryReality free pod fuel t0) = Returns x \<Longrightarrow> x = pod"
proof (induction fuel arbitrary: t0)
  case 0
  then show ?case by simp
next
  case (Suc fuel)
  obtain c t where s: "selectCase (firstFree free t0 60) (t0 + 5) (t0 + 60) = (c, t)"
    by (cases "selectCase (firstFree free t0 60) (t0 + 5) (t0 + 60)")
  have n: "c \<noteq> After1m" using selectCase_never_1m [of "firstFree free t0 60" t0] s by simp
  show ?case
  proof (cases c)
    case SemaphoreAcquired
    with s Suc.prems show ?thesis by simp
  next
    case After5s
    with s Suc.prems have "fst (queryReality free pod fuel t) = Returns x"
      by (simp split: prod.splits)
    then show ?thesis by (rule Suc.IH)
  next
    case After1m
    with n show ?thesis by simp
  qed
qed

subsection \<open>The health aggregator\<close>

lemma AggregateHealth_returns:
  "curHealth p \<noteq> None \<Longrightarrow> AggregateHealth (WaiterChecks # evs) p = Some (p, evs)"
  by auto

lemma AggregateHealth_goes_on:
  "\<not> (e = WaiterChecks \<and> curHealth p \<noteq> None) \<Longrightarrow>
   AggregateHealth (e # evs) p = AggregateHealth evs (watchStep e p)"
  by (cases e) auto

lemma AggregateHealth_nonnil:
  "AggregateHealth evs p = Some (p', rest) \<Longrightarrow> curHealth p' \<noteq> None"
proof (induction evs arbitrary: p)
  case Nil
  then show ?case by simp
next
  case (Cons e evs)
  show ?case
  proof (cases "e = WaiterChecks \<and> curHealth p \<noteq> None")
    case True
    with Cons.prems AggregateHealth_returns [of p evs] show ?thesis by auto
  next
    case False
    with Cons.prems AggregateHealth_goes_on [OF False, of evs] Cons.IH show ?thesis by auto
  qed
qed

lemma AggregateHealth_at_prefix:
  "AggregateHealth evs p = Some (p', rest) \<Longrightarrow>
   \<exists>pre. evs = pre @ WaiterChecks # rest \<and> p' = beginWatch pre p"
proof (induction evs arbitrary: p)
  case Nil
  then show ?case by simp
next
  case (Cons e evs)
  show ?case
  proof (cases "e = WaiterChecks \<and> curHealth p \<noteq> None")
    case True
    with Cons.prems AggregateHealth_returns [of p evs]
    have "e # evs = [] @ WaiterChecks # rest \<and> p' = beginWatch [] p" by auto
    then show ?thesis by blast
  next
    case False
    with Cons.prems AggregateHealth_goes_on [OF False, of evs]
    have "AggregateHealth evs (watchStep e p) = Some (p', rest)" by simp
    from Cons.IH [OF this] obtain pre where
      "evs = pre @ WaiterChecks # rest" "p' = beginWatch pre (watchStep e p)" by blast
    then have "e # evs = (e # pre) @ WaiterChecks # rest \<and> p' = beginWatch (e # pre) p" by simp
    then show ?thesis by blast
  qed
qed

lemma watchStep_exit_nonnil:
  "(\<not> watching p \<longrightarrow> curHealth p \<noteq> None) \<Longrightarrow>
   (\<not> watching (watchStep e p) \<longrightarrow> curHealth (watchStep e p) \<noteq> None)"
  by (cases e) (auto simp: exitWatch_def)

lemma AggregateHealth_unblocks:
  "\<not> watching (beginWatch pre p) \<Longrightarrow> (\<not> watching p \<longrightarrow> curHealth p \<noteq> None) \<Longrightarrow>
   AggregateHealth (pre @ WaiterChecks # rest) p \<noteq> None"
proof (induction pre arbitrary: p)
  case Nil
  then have "curHealth p \<noteq> None" by simp
  from AggregateHealth_returns [OF this, of rest] show ?case by simp
next
  case (Cons e pre)
  show ?case
  proof (cases "e = WaiterChecks \<and> curHealth p \<noteq> None")
    case True
    with AggregateHealth_returns [of p "pre @ WaiterChecks # rest"] show ?thesis by auto
  next
    case False
    have w: "\<not> watching (beginWatch pre (watchStep e p))" using Cons.prems(1) by simp
    have "AggregateHealth (pre @ WaiterChecks # rest) (watchStep e p) \<noteq> None"
      using Cons.IH [OF w watchStep_exit_nonnil [OF Cons.prems(2)]] .
    with AggregateHealth_goes_on [OF False, of "pre @ WaiterChecks # rest"] show ?thesis by simp
  qed
qed

lemma watchStep_empty_map:
  "curHealth p = None \<or> curHealth p = Some Map.empty \<Longrightarrow> \<forall>m. e \<noteq> Emit (Some m) \<Longrightarrow>
   curHealth (watchStep e p) = None \<or> curHealth (watchStep e p) = Some Map.empty"
proof (cases e)
  case (Emit res)
  assume "curHealth p = None \<or> curHealth p = Some Map.empty" "\<forall>m. e \<noteq> Emit (Some m)"
  with Emit show ?thesis by (cases res) auto
qed (auto simp: exitWatch_def)

lemma AggregateHealth_empty_map:
  "AggregateHealth evs p = Some (p', rest) \<Longrightarrow>
   curHealth p = None \<or> curHealth p = Some Map.empty \<Longrightarrow>
   \<forall>e \<in> set evs. \<forall>m. e \<noteq> Emit (Some m) \<Longrightarrow> curHealth p' = Some Map.empty"
proof (induction evs arbitrary: p)
  case Nil
  then show ?case by simp
next
  case (Cons e evs)
  show ?case
  proof (cases "e = WaiterChecks \<and> curHealth p \<noteq> None")
    case True
    with Cons.prems(1) AggregateHealth_returns [of p evs] have "p' = p" by auto
    with True Cons.prems(2) show ?thesis by auto
  next
    case False
    with Cons.prems(1) AggregateHealth_goes_on [OF False, of evs]
    have a: "AggregateHealth evs (watchStep e p) = Some (p', rest)" by simp
    have "curHealth (watchStep e p) = None \<or> curHealth (watchStep e p) = Some Map.empty"
      using watchStep_empty_map [OF Cons.prems(2)] Cons.prems(3) by simp
    from Cons.IH [OF a this] Cons.prems(3) show ?thesis by simp
  qed
qed

lemma watchStep_stays_nonnil:
  "curHealth p \<noteq> None \<Longrightarrow> e \<noteq> Emit None \<Longrightarrow> curHealth (watchStep e p) \<noteq> None"
  by (cases e) (auto simp: exitWatch_def)

lemma beginWatch_stays_nonnil:
  "curHealth p \<noteq> None \<Longrightarrow> Emit None \<notin> set evs \<Longrightarrow> curHealth (beginWatch evs p) \<noteq> None"
proof (induction evs arbitrary: p)
  case Nil
  then show ?case by simp
next
  case (Cons e evs)
  then have "curHealth (watchStep e p) \<noteq> None" by (intro watchStep_stays_nonnil) auto
  with Cons show ?case by simp
qed

lemma watchStep_exited:
  "\<not> watching p \<Longrightarrow> curHealth (watchStep e p) = curHealth p \<and> \<not> watching (watchStep e p)"
  by (cases e) auto

lemma beginWatch_exited:
  "\<not> watching p \<Longrightarrow> curHealth (beginWatch evs p) = curHealth p"
proof (induction evs arbitrary: p)
  case Nil
  then show ?case by simp
next
  case (Cons e evs)
  with watchStep_exited [of p e] show ?case by simp
qed

subsection \<open>The rollout order\<close>

lemma rolloutLess_key:
  "hasStatus F a \<Longrightarrow> hasStatus F b \<Longrightarrow> rolloutLess F a b = Some (rolloutKey F a < rolloutKey F b)"
  by (auto simp: hasStatus_def rolloutLess_def rolloutKey_def nodeHealthy_def compareErrors_def
                 compareHealth_def compareFromBool_def Let_def less_prod_def
           split: option.splits prod.splits)

lemma order_sorted_key:
  assumes "sort_Sort_post F xs ys" and "\<forall>n \<in> set xs. hasStatus F n"
  shows "sorted (map (rolloutKey F) ys)"
proof -
  have s: "set ys = set xs" using assms(1) by (metis sort_Sort_post_def mset_eq_setD)
  have "sorted_wrt (\<lambda>a b. rolloutLess F b a = Some False) ys"
    using assms(1) by (simp add: sort_Sort_post_def)
  then have "sorted_wrt (\<lambda>a b. rolloutKey F a \<le> rolloutKey F b) ys"
  proof (rule sorted_wrt_mono_rel [rotated])
    fix a b assume "a \<in> set ys" "b \<in> set ys" "rolloutLess F b a = Some False"
    then show "rolloutKey F a \<le> rolloutKey F b"
      using rolloutLess_key [of F b a] assms(2) s by (auto simp: not_less)
  qed
  then show ?thesis by (simp add: sorted_map)
qed

lemma order_unique:
  assumes "sort_Sort_post F xs ys" and "sort_Sort_post F xs zs"
    and "\<forall>n \<in> set xs. hasStatus F n" and "distinct (map Name xs)"
  shows "zs = ys"
proof -
  have m: "mset ys = mset xs" "mset zs = mset xs"
    using assms(1,2) by (simp_all add: sort_Sort_post_def)
  have "sort (map (rolloutKey F) xs) = map (rolloutKey F) ys"
    using order_sorted_key [OF assms(1,3)] m by (intro properties_for_sort) simp_all
  moreover have "sort (map (rolloutKey F) xs) = map (rolloutKey F) zs"
    using order_sorted_key [OF assms(2,3)] m by (intro properties_for_sort) simp_all
  ultimately have e: "map (rolloutKey F) zs = map (rolloutKey F) ys" by simp
  have "inj_on Name (set xs)" using assms(4) by (simp add: distinct_map)
  then have "inj_on (rolloutKey F) (set xs)"
    by (auto simp: inj_on_def rolloutKey_def)
  moreover have "set ys = set xs" "set zs = set xs" using m by (metis mset_eq_setD)+
  ultimately have "inj_on (rolloutKey F) (set zs \<union> set ys)" by simp
  with e show ?thesis by (simp add: inj_on_map_eq_map)
qed

lemma order_exists:
  assumes "\<forall>n \<in> set xs. hasStatus F n"
  shows "sort_Sort_post F xs (sort_key (rolloutKey F) xs)"
proof -
  have "sorted_wrt (\<lambda>a b. rolloutKey F a \<le> rolloutKey F b) (sort_key (rolloutKey F) xs)"
    using sorted_sort_key [of "rolloutKey F" xs] by (simp add: sorted_map)
  then have "sorted_wrt (\<lambda>a b. rolloutLess F b a = Some False) (sort_key (rolloutKey F) xs)"
  proof (rule sorted_wrt_mono_rel [rotated])
    fix a b assume "a \<in> set (sort_key (rolloutKey F) xs)" "b \<in> set (sort_key (rolloutKey F) xs)"
      "rolloutKey F a \<le> rolloutKey F b"
    then show "rolloutLess F b a = Some False"
      using rolloutLess_key [of F b a] assms by (auto simp: not_less)
  qed
  then show ?thesis by (simp add: sort_Sort_post_def)
qed

lemma order_buckets:
  assumes "sort_Sort_post F xs ys" and "\<forall>n \<in> set xs. hasStatus F n"
  shows "sorted_wrt (\<lambda>a b. (\<not> nodeHealthy F a \<and> nodeHealthy F b)
                         \<or> (nodeHealthy F a = nodeHealthy F b \<and> Name a \<le> Name b)) ys"
proof -
  have "sorted_wrt (\<lambda>a b. rolloutKey F a \<le> rolloutKey F b) ys"
    using order_sorted_key [OF assms] by (simp add: sorted_map)
  then show ?thesis
    by (rule sorted_wrt_mono_rel [rotated]) (auto simp: rolloutKey_def less_eq_prod_def)
qed

lemma order_all_healthy:
  assumes "sort_Sort_post F xs ys" and "\<forall>n \<in> set xs. hasStatus F n"
    and "\<forall>n \<in> set xs. nodeHealthy F n"
  shows "map Name ys = sort (map Name xs)"
proof -
  have s: "set ys = set xs" using assms(1) by (metis sort_Sort_post_def mset_eq_setD)
  have "sorted_wrt (\<lambda>a b. rolloutKey F a \<le> rolloutKey F b) ys"
    using order_sorted_key [OF assms(1,2)] by (simp add: sorted_map)
  then have "sorted_wrt (\<lambda>a b. Name a \<le> Name b) ys"
    by (rule sorted_wrt_mono_rel [rotated]) (use assms(3) s in \<open>auto simp: rolloutKey_def less_eq_prod_def\<close>)
  then have "sorted (map Name ys)" by (simp add: sorted_map)
  moreover have "mset (map Name ys) = mset (map Name xs)"
    using assms(1) by (simp add: sort_Sort_post_def)
  ultimately show ?thesis by (intro properties_for_sort [symmetric]) simp_all
qed

lemma insertLeft_status:
  assumes "hasStatus F x" and "\<forall>n \<in> set before. hasStatus F n"
    and "sorted (map (rolloutKey F) (rev before))"
  shows "\<exists>r. insertLeft F x before = Some r \<and> mset r = add_mset x (mset before)
             \<and> sorted (map (rolloutKey F) (rev r))"
  using assms
proof (induction before)
  case Nil
  then show ?case by simp
next
  case (Cons y before)
  have l: "rolloutLess F x y = Some (rolloutKey F x < rolloutKey F y)"
    using Cons.prems by (intro rolloutLess_key) simp_all
  have sb: "sorted (map (rolloutKey F) (rev before))"
    and le: "\<forall>n \<in> set before. rolloutKey F n \<le> rolloutKey F y"
    using Cons.prems(3) by (auto simp: sorted_append)
  show ?case
  proof (cases "rolloutKey F x < rolloutKey F y")
    case True
    from Cons.IH [OF Cons.prems(1) _ sb] Cons.prems(2)
    obtain r where r: "insertLeft F x before = Some r" "mset r = add_mset x (mset before)"
      "sorted (map (rolloutKey F) (rev r))" by auto
    have "set r = insert x (set before)" using r(2) by (metis mset_eq_setD set_mset_add_mset_insert set_mset_mset)
    with le True have "\<forall>n \<in> set r. rolloutKey F n \<le> rolloutKey F y" by auto
    with r l True show ?thesis by (auto simp: sorted_append)
  next
    case False
    with le have "\<forall>n \<in> set (y # before). rolloutKey F n \<le> rolloutKey F x" by auto
    with l False Cons.prems(3) show ?thesis by (auto simp: sorted_append)
  qed
qed

lemma insertionSort_status:
  assumes "\<forall>n \<in> set done \<union> set xs. hasStatus F n"
    and "sorted (map (rolloutKey F) (rev done))"
  shows "\<exists>ys. insertionSort F done xs = Some ys \<and> mset ys = mset done + mset xs
              \<and> sorted (map (rolloutKey F) ys)"
  using assms
proof (induction xs arbitrary: "done")
  case Nil
  then show ?case by simp
next
  case (Cons x xs)
  from insertLeft_status [of F x "done"] Cons.prems
  obtain r where r: "insertLeft F x done = Some r" "mset r = add_mset x (mset done)"
    "sorted (map (rolloutKey F) (rev r))" by auto
  have "set r = insert x (set done)" using r(2) by (metis mset_eq_setD set_mset_add_mset_insert set_mset_mset)
  with Cons.prems(1) have "\<forall>n \<in> set r \<union> set xs. hasStatus F n" by auto
  from Cons.IH [OF this r(3)] r(1,2) show ?case by auto
qed

lemma getRolloutOrder_short:
  assumes "\<forall>n \<in> set xs. hasStatus F n" and "length xs \<le> 6"
  shows "\<exists>ys. getRolloutOrder longSort F xs = Some ys \<and> sort_Sort_post F xs ys"
proof -
  from insertionSort_status [of "[]" xs F] assms(1)
  obtain ys where y: "insertionSort F [] xs = Some ys" "mset ys = mset xs"
    "sorted (map (rolloutKey F) ys)" by auto
  have s: "set ys = set xs" using y(2) by (rule mset_eq_setD)
  have "sorted_wrt (\<lambda>a b. rolloutKey F a \<le> rolloutKey F b) ys"
    using y(3) by (simp add: sorted_map)
  then have "sorted_wrt (\<lambda>a b. rolloutLess F b a = Some False) ys"
  proof (rule sorted_wrt_mono_rel [rotated])
    fix a b assume "a \<in> set ys" "b \<in> set ys" "rolloutKey F a \<le> rolloutKey F b"
    then show "rolloutLess F b a = Some False"
      using rolloutLess_key [of F b a] assms(1) s by (auto simp: not_less)
  qed
  with y assms(2) show ?thesis by (simp add: getRolloutOrder_def sort_Sort_post_def)
qed

text \<open>
  Where every node has a status, the order is the one the claim describes: a rollout
  order exists, and every order \<^verbatim>\<open>sort.Sort\<close> may produce is a permutation of the nodes in
  which unhealthy nodes come before healthy ones and nodes of equal health are in
  lexicographic order of their names; with distinct names there is only one such order,
  and when all nodes are healthy the names come out in lexicographic order.
\<close>

lemma rollout_order_with_status:
  "(\<forall>n \<in> set xs. hasStatus F n) \<longrightarrow>
     sort_Sort_post F xs (sort_key (rolloutKey F) xs)
     \<and> (sort_Sort_post F xs ys \<longrightarrow>
          mset ys = mset xs
          \<and> sorted_wrt (\<lambda>a b. (\<not> nodeHealthy F a \<and> nodeHealthy F b)
                              \<or> (nodeHealthy F a = nodeHealthy F b \<and> Name a \<le> Name b)) ys
          \<and> (distinct (map Name xs) \<longrightarrow> (\<forall>zs. sort_Sort_post F xs zs \<longrightarrow> zs = ys))
          \<and> ((\<forall>n \<in> set xs. nodeHealthy F n) \<longrightarrow> map Name ys = sort (map Name xs)))"
proof (intro impI conjI allI)
  assume h: "\<forall>n \<in> set xs. hasStatus F n"
  show "sort_Sort_post F xs (sort_key (rolloutKey F) xs)" using h by (rule order_exists)
  assume o: "sort_Sort_post F xs ys"
  show "mset ys = mset xs" using o by (simp add: sort_Sort_post_def)
  show "sorted_wrt (\<lambda>a b. (\<not> nodeHealthy F a \<and> nodeHealthy F b)
                              \<or> (nodeHealthy F a = nodeHealthy F b \<and> Name a \<le> Name b)) ys"
    using o h by (rule order_buckets)
  {
    fix zs
    assume "distinct (map Name xs)" and "sort_Sort_post F xs zs"
    then show "zs = ys" using order_unique [OF o _ h] by blast
  }
  assume "\<forall>n \<in> set xs. nodeHealthy F n"
  then show "map Name ys = sort (map Name xs)" using order_all_healthy [OF o h] by blast
qed

section \<open>Claims\<close>

text \<open>
  C1. \<^verbatim>\<open>SetManifest(m)\<close> replaces the stored manifest with \<open>m\<close>; it resets
  \<^verbatim>\<open>completedCount\<close> to zero exactly when the content hash of \<open>m\<close> differs from the hash of
  the manifest stored before, and leaves the counter unchanged when the hashes are equal;
  nothing else changes. \<^verbatim>\<open>GetManifest\<close> afterwards returns \<open>m\<close>. An update that is then
  scheduled on a node writes \<open>m\<close> to the intent store, and once that write is committed it
  waits for reality with the content hash of \<open>m\<close> as its target: its result is that of
  \<^verbatim>\<open>ensureInReality\<close> for the hash of \<open>m\<close>, followed by \<^verbatim>\<open>ensureHealthy\<close> when the
  hash was reached.
\<close>

theorem C1_SetManifest:
  "GetManifest (SetManifest SHA m r) = m
   \<and> CompletedCount (SetManifest SHA m r) =
       (if fst (SHA m) \<noteq> fst (SHA (manifest r)) then 0 else CompletedCount r)
   \<and> SetManifest SHA m r =
       r\<lparr>completedCount := CompletedCount (SetManifest SHA m r), manifest := m\<rparr>
   \<and> (shouldScheduleForNode SHA (reality env) (SetManifest SHA m r) \<longrightarrow>
        hd (snd (snd (updateOne SHA Compare env node (SetManifest SHA m r)))) = SetPodTxn node m)
   \<and> (shouldScheduleForNode SHA (reality env) (SetManifest SHA m r) \<and> setPodTxn env = None
        \<and> (podLabels r = [] \<or> setLabelsTxn env = None) \<and> commit env = (True, None) \<longrightarrow>
        fst (updateOne SHA Compare env node (SetManifest SHA m r)) =
          (case ensureInReality SHA (fst (SHA m)) (realityPolls env) of
             Returns None \<Rightarrow> ensureHealthy Compare (threshold r) (healthPolls env)
           | x \<Rightarrow> x))"
proof -
  have g: "GetManifest (SetManifest SHA m r) = m"
    by (simp add: SetManifest_def GetManifest_def Let_def)
  have f: "podLabels (SetManifest SHA m r) = podLabels r"
          "threshold (SetManifest SHA m r) = threshold r"
    by (simp_all add: SetManifest_def Let_def)
  have w: "shouldScheduleForNode SHA (reality env) (SetManifest SHA m r) \<longrightarrow>
        hd (snd (snd (updateOne SHA Compare env node (SetManifest SHA m r)))) = SetPodTxn node m"
  proof
    assume s: "shouldScheduleForNode SHA (reality env) (SetManifest SHA m r)"
    obtain res r' ops where u: "updateOne SHA Compare env node (SetManifest SHA m r) = (res, r', ops)"
      by (cases "updateOne SHA Compare env node (SetManifest SHA m r)")
    from updateOne_scheduled [OF s u] g u
    show "hd (snd (snd (updateOne SHA Compare env node (SetManifest SHA m r)))) = SetPodTxn node m"
      by simp
  qed
  have t: "shouldScheduleForNode SHA (reality env) (SetManifest SHA m r) \<and> setPodTxn env = None
        \<and> (podLabels r = [] \<or> setLabelsTxn env = None) \<and> commit env = (True, None) \<longrightarrow>
        fst (updateOne SHA Compare env node (SetManifest SHA m r)) =
          (case ensureInReality SHA (fst (SHA m)) (realityPolls env) of
             Returns None \<Rightarrow> ensureHealthy Compare (threshold r) (healthPolls env)
           | x \<Rightarrow> x)"
    using updateOne_waits [of SHA env "SetManifest SHA m r" Compare node]
    unfolding g f by blast
  have "GetManifest (SetManifest SHA m r) = m
   \<and> CompletedCount (SetManifest SHA m r) =
       (if fst (SHA m) \<noteq> fst (SHA (manifest r)) then 0 else CompletedCount r)
   \<and> SetManifest SHA m r =
       r\<lparr>completedCount := CompletedCount (SetManifest SHA m r), manifest := m\<rparr>"
    by (auto simp: SetManifest_def GetManifest_def CompletedCount_def Let_def)
  with w t show ?thesis by blast
qed

theorem C1_SetManifest_witness:
  "CompletedCount
     (SetManifest hash_of ''M2'' ((newReplication 2 [''host1''] [] ''M1'' [] None)\<lparr>completedCount := 3\<rparr>)) = 0
   \<and> CompletedCount
     (SetManifest hash_of ''M1'' ((newReplication 2 [''host1''] [] ''M1'' [] None)\<lparr>completedCount := 3\<rparr>)) = 3
   \<and> hd (snd (snd (updateOne hash_of Compare_spec (envFresh ''M2'') ''host1''
        (SetManifest hash_of ''M2'' ((newReplication 2 [''host1''] [] ''M1'' [] None)\<lparr>completedCount := 3\<rparr>)))))
     = SetPodTxn ''host1'' ''M2''
   \<and> fst (updateOne hash_of Compare_spec (envFresh ''M2'') ''host1''
        (SetManifest hash_of ''M2'' ((newReplication 2 [''host1''] [] ''M1'' [] None)\<lparr>completedCount := 3\<rparr>)))
     = Returns None
   \<and> fst (updateOne hash_of Compare_spec (envFresh ''M1'') ''host1''
        (SetManifest hash_of ''M2'' ((newReplication 2 [''host1''] [] ''M1'' [] None)\<lparr>completedCount := 3\<rparr>)))
     = StillRunning"
proof -
  let ?r = "(newReplication 2 [''host1''] [] ''M1'' [] None)\<lparr>completedCount := 3\<rparr>"
  have s: "shouldScheduleForNode hash_of (reality (envFresh ''M2'')) (SetManifest hash_of ''M2'' ?r)"
          "shouldScheduleForNode hash_of (reality (envFresh ''M1'')) (SetManifest hash_of ''M2'' ?r)"
    by (simp_all add: shouldScheduleForNode_def envFresh_def)
  have e: "setPodTxn (envFresh ''M2'') = None \<and> podLabels ?r = [] \<and> commit (envFresh ''M2'') = (True, None)"
          "setPodTxn (envFresh ''M1'') = None \<and> commit (envFresh ''M1'') = (True, None)"
    by (simp_all add: envFresh_def newReplication_def)
  have p2: "ensureInReality hash_of (fst (hash_of ''M2'')) (realityPolls (envFresh ''M2'')) = Returns None"
    and p1: "ensureInReality hash_of (fst (hash_of ''M2'')) (realityPolls (envFresh ''M1'')) = StillRunning"
    and h: "ensureHealthy Compare_spec (threshold ?r) (healthPolls (envFresh ''M2'')) = Returns None"
    by (simp_all add: envFresh_def hash_of_def newReplication_def Let_def nodeStatus_def
                      effectiveThreshold_def Compare_spec_def healthInt_def zeroResult_def
                      Passing_def Warning_def Unknown_def)
  note t2 = C1_SetManifest [of hash_of "''M2''" ?r "envFresh ''M2''" Compare_spec "''host1''"]
  note t1 = C1_SetManifest [of hash_of "''M2''" ?r "envFresh ''M1''" Compare_spec "''host1''"]
  note t0 = C1_SetManifest [of hash_of "''M1''" ?r "envFresh ''M2''" Compare_spec "''host1''"]
  have 1: "CompletedCount (SetManifest hash_of ''M2'' ?r) = 0"
    using t2 [THEN conjunct2, THEN conjunct1]
    by (simp add: hash_of_def newReplication_def)
  have 2: "CompletedCount (SetManifest hash_of ''M1'' ?r) = 3"
    using t0 [THEN conjunct2, THEN conjunct1]
    by (simp add: hash_of_def newReplication_def CompletedCount_def)
  have 3: "hd (snd (snd (updateOne hash_of Compare_spec (envFresh ''M2'') ''host1''
              (SetManifest hash_of ''M2'' ?r)))) = SetPodTxn ''host1'' ''M2''"
    using t2 [THEN conjunct2, THEN conjunct2, THEN conjunct2, THEN conjunct1] s(1) by blast
  have 4: "fst (updateOne hash_of Compare_spec (envFresh ''M2'') ''host1'' (SetManifest hash_of ''M2'' ?r))
           = Returns None"
    using t2 [THEN conjunct2, THEN conjunct2, THEN conjunct2, THEN conjunct2] s(1) e(1) p2 h by simp
  have 5: "fst (updateOne hash_of Compare_spec (envFresh ''M1'') ''host1'' (SetManifest hash_of ''M2'' ?r))
           = StillRunning"
    using t1 [THEN conjunct2, THEN conjunct2, THEN conjunct2, THEN conjunct2] s(2) e p1 by simp
  from 1 2 3 4 5 show ?thesis by blast
qed

text \<open>
  C2 fails as stated: the increment of \<^verbatim>\<open>completedCount\<close> is deferred as soon as the
  node is not skipped, before the intent write is built. On a node where \<^verbatim>\<open>SetPodTxn\<close>
  fails, the transaction is not built and nothing is committed to the intent store, and
  the counter is incremented all the same.
\<close>

theorem C2_build_error_counterexample:
  "updateOne hash_of Compare_spec envBuildError ''host1'' (newReplication 1 [''host1''] [] ''M1'' [] None)
     = (Returns (Some (Errorf ''could not build the transaction'')),
        (newReplication 1 [''host1''] [] ''M1'' [] None)\<lparr>completedCount := 1\<rparr>,
        [SetPodTxn ''host1'' ''M1''])
   \<and> CommitWithRetries \<notin> set (snd (snd (updateOne hash_of Compare_spec envBuildError ''host1''
                                   (newReplication 1 [''host1''] [] ''M1'' [] None))))"
  by (simp add: updateOne_def shouldScheduleForNode_def envBuildError_def hash_of_def
                GetManifest_def newReplication_def Let_def)

text \<open>
  C2, amended. When a call of \<^verbatim>\<open>updateOne\<close> has returned, \<^verbatim>\<open>completedCount\<close> has
  grown by one exactly when the node was not skipped, that is when the call went on to
  build the intent write (it called \<^verbatim>\<open>SetPodTxn\<close>, once), whether or not the transaction
  could then be built and committed. A node whose reality manifest has the hash of the
  current target is skipped: no store call, counter unchanged. A run over nodes whose
  reality all matches the target issues no intent write and leaves the replication, and
  so the counter, as it was.
\<close>

theorem C2_completedCount:
  "(updateOne SHA Compare env node r = (res, r', ops) \<and> res \<noteq> StillRunning \<longrightarrow>
      CompletedCount r' = CompletedCount r + of_nat (length (filter isSetPodTxn ops))
      \<and> (length (filter isSetPodTxn ops) = 1 \<longleftrightarrow> shouldScheduleForNode SHA (reality env) r)
      \<and> (length (filter isSetPodTxn ops) = 0 \<longleftrightarrow> \<not> shouldScheduleForNode SHA (reality env) r))
   \<and> (reality env = (Some nr, None) \<and> SHA nr = (h, None) \<and> SHA (GetManifest r) = (h, None) \<longrightarrow>
        updateOne SHA Compare env node r = (Returns None, r, []))
   \<and> ((\<forall>(n, e) \<in> set nes. \<exists>nr h. reality e = (Some nr, None) \<and> SHA nr = (h, None)
            \<and> SHA (GetManifest r) = (h, None)) \<longrightarrow>
        updateAll SHA Compare nes r = (replicate (length nes) (Returns None), r, []))"
proof (intro conjI impI)
  assume a: "updateOne SHA Compare env node r = (res, r', ops) \<and> res \<noteq> StillRunning"
  show "CompletedCount r' = CompletedCount r + of_nat (length (filter isSetPodTxn ops))"
  proof (cases "shouldScheduleForNode SHA (reality env) r")
    case True
    with a updateOne_scheduled [of SHA env r Compare node res r' ops] show ?thesis
      by (simp add: CompletedCount_def)
  next
    case False
    with a updateOne_skip [of SHA env r Compare node] show ?thesis by simp
  qed
  show "(length (filter isSetPodTxn ops) = 1) = shouldScheduleForNode SHA (reality env) r"
    using a updateOne_scheduled [of SHA env r Compare node res r' ops]
          updateOne_skip [of SHA env r Compare node]
    by (cases "shouldScheduleForNode SHA (reality env) r") auto
  show "(length (filter isSetPodTxn ops) = 0) = (\<not> shouldScheduleForNode SHA (reality env) r)"
    using a updateOne_scheduled [of SHA env r Compare node res r' ops]
          updateOne_skip [of SHA env r Compare node]
    by (cases "shouldScheduleForNode SHA (reality env) r") auto
next
  assume "reality env = (Some nr, None) \<and> SHA nr = (h, None) \<and> SHA (GetManifest r) = (h, None)"
  then show "updateOne SHA Compare env node r = (Returns None, r, [])"
    using shouldSchedule_match [of env nr SHA h r] updateOne_skip by blast
next
  assume "\<forall>(n, e) \<in> set nes. \<exists>nr h. reality e = (Some nr, None) \<and> SHA nr = (h, None)
            \<and> SHA (GetManifest r) = (h, None)"
  then have "\<forall>x \<in> set nes. \<not> shouldScheduleForNode SHA (reality (snd x)) r"
    using shouldSchedule_match by fastforce
  then show "updateAll SHA Compare nes r = (replicate (length nes) (Returns None), r, [])"
    by (rule updateAll_skip)
qed

theorem C2_completedCount_witness:
  "updateOne hash_of Compare_spec (envFresh ''M1'') ''host1'' (newReplication 2 [''host1''] [] ''M1'' [] None)
     = (Returns None, (newReplication 2 [''host1''] [] ''M1'' [] None)\<lparr>completedCount := 1\<rparr>,
        [SetPodTxn ''host1'' ''M1'', CommitWithRetries])
   \<and> CompletedCount ((newReplication 2 [''host1''] [] ''M1'' [] None)\<lparr>completedCount := 1\<rparr>)
       = CompletedCount (newReplication 2 [''host1''] [] ''M1'' [] None) + 1
   \<and> updateOne hash_of Compare_spec (envCurrent ''M1'') ''host2'' (newReplication 2 [''host1''] [] ''M1'' [] None)
     = (Returns None, newReplication 2 [''host1''] [] ''M1'' [] None, [])
   \<and> updateAll hash_of Compare_spec [(''host1'', envCurrent ''M1''), (''host2'', envCurrent ''M1'')]
        (newReplication 2 [''host1'', ''host2''] [] ''M1'' [] None)
     = ([Returns None, Returns None], newReplication 2 [''host1'', ''host2''] [] ''M1'' [] None, [])"
proof -
  let ?r = "newReplication 2 [''host1''] [] ''M1'' [] None :: string replication"
  let ?r2 = "newReplication 2 [''host1'', ''host2''] [] ''M1'' [] None :: string replication"
  have u: "updateOne hash_of Compare_spec (envFresh ''M1'') ''host1'' ?r
           = (Returns None, ?r\<lparr>completedCount := 1\<rparr>, [SetPodTxn ''host1'' ''M1'', CommitWithRetries])"
    by (simp add: updateOne_def shouldScheduleForNode_def envFresh_def hash_of_def GetManifest_def
                  newReplication_def Let_def nodeStatus_def effectiveThreshold_def Compare_spec_def
                  healthInt_def zeroResult_def Passing_def Warning_def Unknown_def)
  have c: "reality (envCurrent ''M1'') = (Some ''M1'', None) \<and> hash_of ''M1'' = (''M1'', None)
           \<and> hash_of (GetManifest ?r) = (''M1'', None)"
    by (simp add: envCurrent_def hash_of_def GetManifest_def newReplication_def)
  have a: "\<forall>(n, e) \<in> set [(''host1'', envCurrent ''M1''), (''host2'', envCurrent ''M1'')].
             \<exists>nr h. reality e = (Some nr, None) \<and> hash_of nr = (h, None)
                \<and> hash_of (GetManifest ?r2) = (h, None)"
    by (simp add: envCurrent_def hash_of_def GetManifest_def newReplication_def)
  from C2_completedCount [of hash_of Compare_spec "envFresh ''M1''" "''host1''" ?r "Returns None"
         "?r\<lparr>completedCount := 1\<rparr>" "[SetPodTxn ''host1'' ''M1'', CommitWithRetries]"]
       u
  have 1: "CompletedCount (?r\<lparr>completedCount := 1\<rparr>) = CompletedCount ?r + 1"
    by (simp add: isSetPodTxn_def)
  from C2_completedCount [of hash_of Compare_spec "envCurrent ''M1''" "''host2''" ?r _ _ _ "''M1''" "''M1''"] c
  have 2: "updateOne hash_of Compare_spec (envCurrent ''M1'') ''host2'' ?r = (Returns None, ?r, [])"
    by blast
  from C2_completedCount [of hash_of Compare_spec _ _ ?r2 _ _ _ _ _
         "[(''host1'', envCurrent ''M1''), (''host2'', envCurrent ''M1'')]"] a
  have 3: "updateAll hash_of Compare_spec [(''host1'', envCurrent ''M1''), (''host2'', envCurrent ''M1'')] ?r2
           = ([Returns None, Returns None], ?r2, [])"
    by (simp add: numeral_2_eq_2)
  from u 1 2 3 show ?thesis by blast
qed

text \<open>
  C3 fails as stated: a worker goes on to the next node as soon as the context of the
  node it waits for is done, and the deadline of that context makes it done while the call
  of \<^verbatim>\<open>updateOne\<close> may not have returned. With one worker, a deadline on the first node
  and two nodes in the queue, two calls of \<^verbatim>\<open>updateOne\<close> are in flight.
\<close>

theorem C3_deadline_counterexample:
  "map_option (\<lambda>p. card (inflight p))
     (run [Recv 0 True, Deadline 0, CtxDone 0, Recv 0 True] (startPool 1 [''host1'', ''host2'']))
   = Some 2"
  by (simp add: startPool_def)

text \<open>
  C3, amended. For every \<open>active \<ge> 1\<close> and every node list, in every state the pool
  reaches, the number of updates in flight whose context is not yet done never exceeds
  \<open>active\<close>; and when no deadline of a per-node context fires (as with \<^verbatim>\<open>NoTimeout\<close>),
  the number of updates in flight never exceeds \<open>active\<close>.
\<close>

theorem C3_inflight_bound:
  "run evs (startPool act ns) = Some p \<and> 1 \<le> act \<longrightarrow>
     int (card (inflight p - ctxDone p)) \<le> act
     \<and> ((\<forall>e \<in> set evs. \<not> isDeadline e) \<longrightarrow> int (card (inflight p)) \<le> act)"
proof (intro impI conjI)
  assume a: "run evs (startPool act ns) = Some p \<and> 1 \<le> act"
  then show "int (card (inflight p - ctxDone p)) \<le> act"
    using live_bound [of evs act ns p] by (simp add: le_nat_iff)
  assume "\<forall>e \<in> set evs. \<not> isDeadline e"
  with a show "int (card (inflight p)) \<le> act"
    using inflight_bound [of evs act ns p] by (simp add: le_nat_iff)
qed

theorem C3_inflight_bound_witness:
  "\<exists>p. run [Recv 0 False, Recv 1 True, Return 0, CtxDone 0, Recv 0 False]
          (startPool 2 [''host1'', ''host2'', ''host3'']) = Some p
       \<and> inflight p = {1, 2} \<and> int (card (inflight p)) \<le> 2"
proof -
  let ?evs = "[Recv 0 False, Recv 1 True, Return 0, CtxDone 0, Recv 0 False]"
  obtain p where r: "run ?evs (startPool 2 [''host1'', ''host2'', ''host3'']) = Some p"
    and i: "inflight p = {1, 2}"
    by (simp add: startPool_def insert_commute numeral_2_eq_2)
  have d: "\<forall>e \<in> set ?evs. \<not> isDeadline e" by (simp add: isDeadline_def)
  from C3_inflight_bound [of ?evs 2 "[''host1'', ''host2'', ''host3'']" p] r d
  have "int (card (inflight p)) \<le> 2" by simp
  with r i show ?thesis by blast
qed

text \<open>
  C4. The claimed order is least healthy first: unhealthy nodes, then nodes with no
  status, then healthy nodes, ties broken by node name; the comment on \<^verbatim>\<open>Less\<close>
  documents the same order. The code does not place the nodes with no status there:
  \<^verbatim>\<open>compareErrors\<close> makes a node whose status lookup failed \<^verbatim>\<open>Less\<close> than every node
  that has a status. For an unhealthy node \<open>a\<close> and a node \<open>b\<close> with no status, \<open>b\<close> is
  \<^verbatim>\<open>Less\<close> than \<open>a\<close> and \<open>a\<close> is not \<^verbatim>\<open>Less\<close> than \<open>b\<close>, so \<^verbatim>\<open>getRolloutOrder\<close> sends
  \<open>b\<close> before \<open>a\<close>, whichever comes first in the allocation. (With statuses for all nodes
  the code orders them as claimed: \<open>host2\<close>, unhealthy, before the healthy \<open>host1\<close> and
  \<open>host3\<close>.)
\<close>

theorem C4_no_status_before_unhealthy:
  "Less (ForNode_of [\<lparr>StatusNode = ''a'', Version = ''v1'', Healthy = False\<rparr>])
      [allocNode ''a'', allocNode ''b''] 1 0 = Some True
   \<and> Less (ForNode_of [\<lparr>StatusNode = ''a'', Version = ''v1'', Healthy = False\<rparr>])
      [allocNode ''a'', allocNode ''b''] 0 1 = Some False
   \<and> compareErrors (Some NoStatusGiven) None = lessThan_c
   \<and> getRolloutOrder longSort (ForNode_of [\<lparr>StatusNode = ''a'', Version = ''v1'', Healthy = False\<rparr>])
      [allocNode ''a'', allocNode ''b''] = Some [allocNode ''b'', allocNode ''a'']
   \<and> getRolloutOrder longSort (ForNode_of [\<lparr>StatusNode = ''a'', Version = ''v1'', Healthy = False\<rparr>])
      [allocNode ''b'', allocNode ''a''] = Some [allocNode ''b'', allocNode ''a'']
   \<and> getRolloutOrder longSort (ForNode_of statusOfThree)
      [allocNode ''host3'', allocNode ''host1'', allocNode ''host2'']
      = Some [allocNode ''host2'', allocNode ''host1'', allocNode ''host3'']"
  by (simp add: Less_def getRolloutOrder_def rolloutLess_def ForNode_of_def compareErrors_def
                compareHealth_def compareFromBool_def allocNode_def statusOfThree_def)




text \<open>
  C6. At a tick of its timer \<^verbatim>\<open>ensureHealthy\<close> returns nil exactly when the status of
  the node in the aggregator compares greater than or equal to the effective threshold,
  and polls again otherwise; so it returns nil exactly when, after ticks that were all
  below the threshold, a tick reaches it. The effective threshold is \<open>Passing\<close> for the
  empty threshold and the threshold itself otherwise. A node missing from the aggregator
  is compared with the zero status, which is treated as \<open>Critical\<close> by every
  \<^verbatim>\<open>health.Compare\<close> that ranks the zero status as it ranks \<open>Critical\<close>.
\<close>

theorem C6_ensureHealthy:
  "ensureHealthy Compare thr (Tick h # evs) =
     (if 0 \<le> Compare (nodeStatus h) (effectiveThreshold thr) then Returns None
      else ensureHealthy Compare thr evs)
   \<and> (ensureHealthy Compare thr evs = Returns None \<longleftrightarrow>
        (\<exists>pre h post. evs = map Tick pre @ Tick h # post
           \<and> (\<forall>x \<in> set pre. Compare (nodeStatus x) (effectiveThreshold thr) < 0)
           \<and> 0 \<le> Compare (nodeStatus h) (effectiveThreshold thr)))
   \<and> effectiveThreshold [] = Passing
   \<and> (thr \<noteq> [] \<longrightarrow> effectiveThreshold thr = thr)
   \<and> nodeStatus None = Status zeroResult
   \<and> ((\<forall>t. Compare (Status zeroResult) t = Compare Critical t) \<longrightarrow>
        ensureHealthy Compare thr (Tick None # evs)
        = ensureHealthy Compare thr (Tick (Some (res\<lparr>Status := Critical\<rparr>)) # evs))"
proof -
  have "ensureHealthy Compare thr (Tick h # evs) =
     (if 0 \<le> Compare (nodeStatus h) (effectiveThreshold thr) then Returns None
      else ensureHealthy Compare thr evs)"
    by (simp add: Let_def not_less)
  moreover have "(\<forall>t. Compare (Status zeroResult) t = Compare Critical t) \<longrightarrow>
        ensureHealthy Compare thr (Tick None # evs)
        = ensureHealthy Compare thr (Tick (Some (res\<lparr>Status := Critical\<rparr>)) # evs)"
    by (simp add: Let_def nodeStatus_def)
  moreover have "effectiveThreshold [] = Passing \<and> (thr \<noteq> [] \<longrightarrow> effectiveThreshold thr = thr)
                 \<and> nodeStatus None = Status zeroResult"
    by (simp add: effectiveThreshold_def nodeStatus_def)
  ultimately show ?thesis using ensureHealthy_nil_iff [of Compare thr evs] by blast
qed

theorem C6_ensureHealthy_witness:
  "ensureHealthy Compare_spec []
     [Tick None, Tick (Some (zeroResult\<lparr>Status := Warning\<rparr>)), Tick (Some (zeroResult\<lparr>Status := Passing\<rparr>))]
     = Returns None
   \<and> ensureHealthy Compare_spec Warning [Tick None, Tick (Some (zeroResult\<lparr>Status := Warning\<rparr>))]
     = Returns None
   \<and> ensureHealthy Compare_spec Warning [Tick None]
     = ensureHealthy Compare_spec Warning [Tick (Some (zeroResult\<lparr>Status := Critical\<rparr>))]
   \<and> ensureHealthy Compare_spec Warning [Tick None] = StillRunning
   \<and> effectiveThreshold Warning = Warning"
proof -
  have z: "\<forall>t. Compare_spec (Status zeroResult) t = Compare_spec Critical t"
    by (simp add: Compare_spec_def healthInt_def zeroResult_def Critical_def Passing_def
                  Warning_def Unknown_def)
  have n: "Warning \<noteq> []" by (simp add: Warning_def)
  have e1: "[Tick None, Tick (Some (zeroResult\<lparr>Status := Warning\<rparr>)), Tick (Some (zeroResult\<lparr>Status := Passing\<rparr>))]
        = map Tick [None, Some (zeroResult\<lparr>Status := Warning\<rparr>)]
          @ Tick (Some (zeroResult\<lparr>Status := Passing\<rparr>)) # []" by simp
  have b1: "(\<forall>x \<in> set [None, Some (zeroResult\<lparr>Status := Warning\<rparr>)].
               Compare_spec (nodeStatus x) (effectiveThreshold []) < 0)
            \<and> 0 \<le> Compare_spec (nodeStatus (Some (zeroResult\<lparr>Status := Passing\<rparr>))) (effectiveThreshold [])"
    by (simp add: Compare_spec_def healthInt_def zeroResult_def nodeStatus_def effectiveThreshold_def
                  Passing_def Warning_def Unknown_def)
  have 1: "ensureHealthy Compare_spec []
     [Tick None, Tick (Some (zeroResult\<lparr>Status := Warning\<rparr>)), Tick (Some (zeroResult\<lparr>Status := Passing\<rparr>))]
     = Returns None"
    using C6_ensureHealthy [of Compare_spec "[]" None
            "[Tick None, Tick (Some (zeroResult\<lparr>Status := Warning\<rparr>)), Tick (Some (zeroResult\<lparr>Status := Passing\<rparr>))]"
            zeroResult] e1 b1
    by blast
  have 3: "ensureHealthy Compare_spec Warning [Tick None]
     = ensureHealthy Compare_spec Warning [Tick (Some (zeroResult\<lparr>Status := Critical\<rparr>))]"
    using C6_ensureHealthy [of Compare_spec Warning None "[]" zeroResult] z by blast
  have 5: "effectiveThreshold Warning = Warning"
    using C6_ensureHealthy [of Compare_spec Warning None "[]" zeroResult] n by blast
  have 2: "ensureHealthy Compare_spec Warning [Tick None, Tick (Some (zeroResult\<lparr>Status := Warning\<rparr>))]
     = Returns None"
    by (simp add: Compare_spec_def healthInt_def zeroResult_def nodeStatus_def effectiveThreshold_def
                  Passing_def Warning_def Unknown_def Let_def)
  have 4: "ensureHealthy Compare_spec Warning [Tick None] = StillRunning"
    by (simp add: Compare_spec_def healthInt_def zeroResult_def nodeStatus_def effectiveThreshold_def
                  Passing_def Warning_def Unknown_def Let_def)
  from 1 2 3 4 5 show ?thesis by blast
qed

text \<open>
  C7. When \<^verbatim>\<open>session.Lock\<close> answers already-locked: if the holder comes back empty,
  \<^verbatim>\<open>lock\<close> fails with the lock-delay error after one \<^verbatim>\<open>Lock\<close> call, whatever
  \<^verbatim>\<open>overrideLock\<close> is; if there is a holder and \<^verbatim>\<open>overrideLock\<close> is false, it fails with
  the already-held error; if there is a holder, \<^verbatim>\<open>overrideLock\<close> is true and the holder
  is destroyed, the result is that of one more attempt made with \<^verbatim>\<open>overrideLock\<close>
  false: that attempt calls \<^verbatim>\<open>Lock\<close> once, destroys no holder, and fails when it is
  answered already-locked again. (When the holder cannot be destroyed, \<^verbatim>\<open>lock\<close> fails
  with that error and makes no further attempt.)
\<close>

theorem C7_lock:
  "(sessionLock st w = (AlreadyLockedError, w1) \<and> LockHolder st w1 = (([], ident, None), w2) \<longrightarrow>
      lock st overrideLock w = (Some BlockedByDelay, w2, [CallLock, CallLockHolder]))
   \<and> (sessionLock st w = (AlreadyLockedError, w1) \<and> LockHolder st w1 = ((holder, ident, None), w2)
        \<and> holder \<noteq> [] \<longrightarrow>
      lock st False w = (Some (AlreadyHeldBy holder), w2, [CallLock, CallLockHolder]))
   \<and> (sessionLock st w = (AlreadyLockedError, w1) \<and> LockHolder st w1 = ((holder, ident, None), w2)
        \<and> holder \<noteq> [] \<and> DestroyLockHolder st ident w2 = (None, w3)
        \<and> lock st False w3 = (res, w4, calls) \<longrightarrow>
      lock st True w = (res, w4, [CallLock, CallLockHolder, CallDestroyLockHolder ident] @ calls)
      \<and> length (filter (\<lambda>c. c = CallLock) calls) = 1
      \<and> (\<forall>i. CallDestroyLockHolder i \<notin> set calls)
      \<and> (fst (sessionLock st w3) = AlreadyLockedError \<longrightarrow> res \<noteq> None))
   \<and> (sessionLock st w = (AlreadyLockedError, w1) \<and> LockHolder st w1 = ((holder, ident, None), w2)
        \<and> holder \<noteq> [] \<and> DestroyLockHolder st ident w2 = (Some e, w3) \<longrightarrow>
      lock st True w = (Some (UnableToDestroyHolder holder e), w3,
                        [CallLock, CallLockHolder, CallDestroyLockHolder ident]))"
  using lock_delay [of st w w1 ident w2 overrideLock] lock_held [of st w w1 holder ident w2]
        lock_override [of st w w1 holder ident w2 w3 res w4 calls]
        lock_retry_calls [of st w3 res w4 calls]
        lock_destroy_fails [of st w w1 holder ident w2 e w3]
  by blast

theorem C7_lock_witness:
  "lock fakeStore True [([], [])] = (Some BlockedByDelay, [([], [])], [CallLock, CallLockHolder])
   \<and> lock fakeStore False [(''other'', ''session-1'')]
       = (Some (AlreadyHeldBy ''other''), [(''other'', ''session-1'')], [CallLock, CallLockHolder])
   \<and> lock fakeStore True [(''other'', ''session-1'')]
       = (None, [(''replication'', ''session-r'')],
          [CallLock, CallLockHolder, CallDestroyLockHolder ''session-1'', CallLock])
   \<and> lock fakeStore True [(''other'', ''session-1''), (''third'', ''session-2'')]
       = (Some (AlreadyHeldBy ''third''), [(''third'', ''session-2'')],
          [CallLock, CallLockHolder, CallDestroyLockHolder ''session-1'', CallLock, CallLockHolder])"
proof -
  have r1: "lock fakeStore False [] = (None, [(''replication'', ''session-r'')], [CallLock])"
    by (simp add: lock_no_override fakeStore_def)
  have r2: "lock fakeStore False [(''third'', ''session-2'')]
            = (Some (AlreadyHeldBy ''third''), [(''third'', ''session-2'')], [CallLock, CallLockHolder])"
    by (simp add: lock_no_override fakeStore_def)
  have 1: "lock fakeStore True [([], [])] = (Some BlockedByDelay, [([], [])], [CallLock, CallLockHolder])"
    using C7_lock [of fakeStore "[([], [])]" "[([], [])]" "[]" "[([], [])]" True]
    by (simp add: fakeStore_def)
  have 2: "lock fakeStore False [(''other'', ''session-1'')]
       = (Some (AlreadyHeldBy ''other''), [(''other'', ''session-1'')], [CallLock, CallLockHolder])"
    using C7_lock [of fakeStore "[(''other'', ''session-1'')]" "[(''other'', ''session-1'')]"
            "''session-1''" "[(''other'', ''session-1'')]" _ "''other''"]
    by (simp add: fakeStore_def)
  have 3: "lock fakeStore True [(''other'', ''session-1'')]
       = (None, [(''replication'', ''session-r'')],
          [CallLock, CallLockHolder, CallDestroyLockHolder ''session-1'', CallLock])"
    using C7_lock [of fakeStore "[(''other'', ''session-1'')]" "[(''other'', ''session-1'')]"
            "''session-1''" "[(''other'', ''session-1'')]" _ "''other''" "[]" None
            "[(''replication'', ''session-r'')]" "[CallLock]"] r1
    by (simp add: fakeStore_def)
  have 4: "lock fakeStore True [(''other'', ''session-1''), (''third'', ''session-2'')]
       = (Some (AlreadyHeldBy ''third''), [(''third'', ''session-2'')],
          [CallLock, CallLockHolder, CallDestroyLockHolder ''session-1'', CallLock, CallLockHolder])"
    using C7_lock [of fakeStore "[(''other'', ''session-1''), (''third'', ''session-2'')]"
            "[(''other'', ''session-1''), (''third'', ''session-2'')]"
            "''session-1''" "[(''other'', ''session-1''), (''third'', ''session-2'')]" _ "''other''"
            "[(''third'', ''session-2'')]" "Some (AlreadyHeldBy ''third'')"
            "[(''third'', ''session-2'')]" "[CallLock, CallLockHolder]"] r2
    by (simp add: fakeStore_def)
  from 1 2 3 4 show ?thesis by blast
qed

text \<open>
  C8. The claim is what the code attempts and misses: the 1 minute timer is made anew at
  every turn of the loop, and the 5 second timer of the same turn always fires first, so
  the timeout case is never taken. With the semaphore never free, after any number of
  turns the query is still waiting, 5 seconds a turn, with one progress line logged per
  turn and no error returned; whenever the query returns, it returns what
  \<^verbatim>\<open>store.Pod\<close> answered.
\<close>

theorem C8_starved_query_never_times_out:
  "queryReality (\<lambda>t. False) pod fuel t0
     = (StillRunning, t0 + 5 * fuel,
        replicate fuel (Info ''Waiting on concurrentRealityRequests for pod''))
   \<and> fst (queryReality (\<lambda>t. False) pod 24 0) = StillRunning
   \<and> fst (snd (queryReality (\<lambda>t. False) pod 24 0)) = 120
   \<and> fst (selectCase (firstFree free t0 60) (t0 + 5) (t0 + 60)) \<noteq> After1m
   \<and> (case fst (queryReality free pod fuel t0) of Returns x \<Rightarrow> x = pod | _ \<Rightarrow> True)"
proof -
  have s: "\<And>n t. queryReality (\<lambda>t. False) pod n t
     = (StillRunning, t + 5 * n, replicate n (Info ''Waiting on concurrentRealityRequests for pod''))"
  proof -
    fix n t
    show "queryReality (\<lambda>t. False) pod n t
     = (StillRunning, t + 5 * n, replicate n (Info ''Waiting on concurrentRealityRequests for pod''))"
      by (induction n arbitrary: t) (simp_all add: firstFree_never selectCase_def Let_def)
  qed
  have "fst (queryReality (\<lambda>t. False) pod 24 0) = StillRunning
        \<and> fst (snd (queryReality (\<lambda>t. False) pod 24 0)) = 120"
    by (simp add: s)
  moreover have "case fst (queryReality free pod fuel t0) of Returns x \<Rightarrow> x = pod | _ \<Rightarrow> True"
    using queryReality_no_timeout [of free pod fuel t0] by (simp split: exec.splits)
  ultimately show ?thesis using s selectCase_never_1m by blast
qed

text \<open>
  C9 fails as stated: \<^verbatim>\<open>beginWatch\<close> stores every map it receives as it is, and a nil
  map is a value of the channel's type. After the constructor has returned on a first
  snapshot, a nil map from the watcher makes the stored map nil again.
\<close>

theorem C9_nil_snapshot_counterexample:
  "AggregateHealth [Emit (Some Map.empty), WaiterChecks, Emit None] newPodHealth
     = Some (newPodHealth\<lparr>curHealth := Some Map.empty\<rparr>, [Emit None])
   \<and> curHealth (beginWatch [Emit None] (newPodHealth\<lparr>curHealth := Some Map.empty\<rparr>)) = None"
  by (simp add: newPodHealth_def)

text \<open>
  C9, amended. \<^verbatim>\<open>AggregateHealth\<close> returns only once the stored map is non-nil, with
  the state the watcher has reached by then. Once the watcher has exited, the next test
  of the constructor finds the map non-nil, so the constructor has returned or returns;
  and if no snapshot other than nil was received before it returns, the map it returns
  with is the empty map. After construction the map stays non-nil as long as the watcher
  receives no nil map. \<^verbatim>\<open>GetHealth\<close> reads the stored map, and once the watcher has
  exited (as it does after \<^verbatim>\<open>Stop()\<close>) later events change neither the map nor what
  \<^verbatim>\<open>GetHealth\<close> and the count queries return.
\<close>

theorem C9_aggregator:
  "(AggregateHealth evs newPodHealth = Some (p, rest) \<longrightarrow>
      curHealth p \<noteq> None
      \<and> (\<exists>pre. evs = pre @ WaiterChecks # rest \<and> p = beginWatch pre newPodHealth))
   \<and> (\<not> watching (beginWatch pre newPodHealth) \<longrightarrow>
        AggregateHealth (pre @ WaiterChecks # rest) newPodHealth \<noteq> None)
   \<and> (AggregateHealth evs newPodHealth = Some (p, rest) \<and> (\<forall>e \<in> set evs. \<forall>m. e \<noteq> Emit (Some m)) \<longrightarrow>
        curHealth p = Some Map.empty)
   \<and> (curHealth q \<noteq> None \<and> Emit None \<notin> set later \<longrightarrow> curHealth (beginWatch later q) \<noteq> None)
   \<and> (\<not> watching q \<longrightarrow>
        curHealth (beginWatch later q) = curHealth q
        \<and> GetHealth (beginWatch later q) host = GetHealth q host
        \<and> numOfHealth (beginWatch later q) status hosts = numOfHealth q status hosts)
   \<and> (curHealth q = Some m \<longrightarrow>
        GetHealth q host = (case m host of None \<Rightarrow> (zeroResult, False) | Some h \<Rightarrow> (h, True)))"
proof -
  have 1: "AggregateHealth evs newPodHealth = Some (p, rest) \<longrightarrow>
      curHealth p \<noteq> None
      \<and> (\<exists>pre. evs = pre @ WaiterChecks # rest \<and> p = beginWatch pre newPodHealth)"
    using AggregateHealth_nonnil AggregateHealth_at_prefix by blast
  have 2: "\<not> watching (beginWatch pre newPodHealth) \<longrightarrow>
        AggregateHealth (pre @ WaiterChecks # rest) newPodHealth \<noteq> None"
    using AggregateHealth_unblocks [of pre newPodHealth rest] by (simp add: newPodHealth_def)
  have 3: "AggregateHealth evs newPodHealth = Some (p, rest) \<and> (\<forall>e \<in> set evs. \<forall>m. e \<noteq> Emit (Some m)) \<longrightarrow>
        curHealth p = Some Map.empty"
    using AggregateHealth_empty_map [of evs newPodHealth p rest] by (simp add: newPodHealth_def)
  have 4: "curHealth q \<noteq> None \<and> Emit None \<notin> set later \<longrightarrow> curHealth (beginWatch later q) \<noteq> None"
    using beginWatch_stays_nonnil by blast
  have 5: "\<not> watching q \<longrightarrow>
        curHealth (beginWatch later q) = curHealth q
        \<and> GetHealth (beginWatch later q) host = GetHealth q host
        \<and> numOfHealth (beginWatch later q) status hosts = numOfHealth q status hosts"
    using beginWatch_exited [of q later] by (simp add: GetHealth_def numOfHealth_def)
  have 6: "curHealth q = Some m \<longrightarrow>
        GetHealth q host = (case m host of None \<Rightarrow> (zeroResult, False) | Some h \<Rightarrow> (h, True))"
    by (simp add: GetHealth_def)
  from 1 2 3 4 5 6 show ?thesis by blast
qed

theorem C9_aggregator_witness:
  "AggregateHealth [WaiterChecks, Emit None, ResultClosed, WaiterChecks, StopCalled] newPodHealth \<noteq> None
   \<and> AggregateHealth [WaiterChecks, Emit None, ResultClosed, WaiterChecks, StopCalled] newPodHealth
     = Some (\<lparr>curHealth = Some Map.empty, quit = Open, watching = False\<rparr>, [StopCalled])
   \<and> curHealth (beginWatch [StopCalled, Emit None] \<lparr>curHealth = Some Map.empty, quit = Open, watching = False\<rparr>)
     = Some Map.empty
   \<and> GetHealth (beginWatch [StopCalled, Emit None] \<lparr>curHealth = Some Map.empty, quit = Open, watching = False\<rparr>) ''host1''
     = (zeroResult, False)
   \<and> curHealth (beginWatch [Emit (Some Map.empty), StopCalled]
        \<lparr>curHealth = Some (Map.empty(''host1'' \<mapsto> zeroResult\<lparr>Status := Passing\<rparr>)), quit = Open, watching = True\<rparr>)
     \<noteq> None"
proof -
  let ?pre = "[WaiterChecks, Emit None, ResultClosed]"
  let ?q = "\<lparr>curHealth = Some Map.empty, quit = Open, watching = False\<rparr>"
  let ?q2 = "\<lparr>curHealth = Some (Map.empty(''host1'' \<mapsto> zeroResult\<lparr>Status := Passing\<rparr>)), quit = Open, watching = True\<rparr>"
  note t = C9_aggregator [of "?pre @ WaiterChecks # [StopCalled]" ?q "[StopCalled]" ?pre ?q
                 "[StopCalled, Emit None]" "''host1''" Passing "[''host1'']" Map.empty]
  note t2 = C9_aggregator [of "?pre @ WaiterChecks # [StopCalled]" ?q "[StopCalled]" ?pre ?q2
                 "[Emit (Some Map.empty), StopCalled]" "''host1''" Passing "[''host1'']" Map.empty]
  note live = t [THEN conjunct2, THEN conjunct1]
  note exited = t [THEN conjunct2, THEN conjunct2, THEN conjunct2, THEN conjunct2, THEN conjunct1]
  note reads = t [THEN conjunct2, THEN conjunct2, THEN conjunct2, THEN conjunct2, THEN conjunct2]
  note stays = t2 [THEN conjunct2, THEN conjunct2, THEN conjunct2, THEN conjunct1]
  have x: "\<not> watching (beginWatch ?pre newPodHealth)"
    by (simp add: newPodHealth_def exitWatch_def)
  have w: "\<not> watching ?q" by simp
  have m: "curHealth ?q = Some Map.empty" by simp
  have n: "curHealth ?q2 \<noteq> None \<and> Emit None \<notin> set [Emit (Some Map.empty), StopCalled]" by simp
  have 0: "AggregateHealth [WaiterChecks, Emit None, ResultClosed, WaiterChecks, StopCalled] newPodHealth \<noteq> None"
    using live x by simp
  have 1: "AggregateHealth [WaiterChecks, Emit None, ResultClosed, WaiterChecks, StopCalled] newPodHealth
           = Some (?q, [StopCalled])"
    by (simp add: newPodHealth_def exitWatch_def)
  have e: "curHealth (beginWatch [StopCalled, Emit None] ?q) = curHealth ?q
           \<and> GetHealth (beginWatch [StopCalled, Emit None] ?q) ''host1'' = GetHealth ?q ''host1''"
    using exited w by blast
  have g: "GetHealth ?q ''host1'' = (zeroResult, False)"
    using reads m by simp
  have 4: "curHealth (beginWatch [Emit (Some Map.empty), StopCalled] ?q2) \<noteq> None"
    using stays n by blast
  from 0 1 e g 4 show ?thesis by simp
qed

text \<open>
  C10. With a non-nil \<^verbatim>\<open>nodeQueue\<close>, \<^verbatim>\<open>Cancel()\<close> returns with the replication
  unchanged, \<^verbatim>\<open>replicationCancelledCh\<close> included; with a nil \<^verbatim>\<open>nodeQueue\<close> it closes an
  open \<^verbatim>\<open>replicationCancelledCh\<close> and changes nothing else. So \<^verbatim>\<open>Cancel()\<close> closes the
  channel only for a replication built with a nil \<^verbatim>\<open>nodeQueue\<close>.
\<close>

theorem C10_Cancel:
  "(nodeQueue r \<noteq> None \<longrightarrow> Cancel r = Some r)
   \<and> (nodeQueue r = None \<and> replicationCancelledCh r = Open \<longrightarrow>
        Cancel r = Some (r\<lparr>replicationCancelledCh := Closed\<rparr>))
   \<and> (\<forall>r'. Cancel r = Some r' \<and> replicationCancelledCh r' \<noteq> replicationCancelledCh r \<longrightarrow>
        nodeQueue r = None \<and> replicationCancelledCh r' = Closed)"
  by (auto simp: Cancel_def close_signal_def split: signal.splits option.splits)

theorem C10_Cancel_witness:
  "Cancel (newReplication 2 [''host1''] [] ''M1'' ''passing'' (Some 7))
     = Some (newReplication 2 [''host1''] [] ''M1'' ''passing'' (Some 7))
   \<and> replicationCancelledCh (newReplication 2 [''host1''] [] ''M1'' ''passing'' (Some 7)) = Open
   \<and> Cancel (newReplication 2 [''host1''] [] ''M1'' ''passing'' None)
     = Some ((newReplication 2 [''host1''] [] ''M1'' ''passing'' None)\<lparr>replicationCancelledCh := Closed\<rparr>)"
  using C10_Cancel [of "newReplication 2 [''host1''] [] ''M1'' ''passing'' (Some 7)"]
        C10_Cancel [of "newReplication 2 [''host1''] [] ''M1'' ''passing'' None"]
  by (simp add: newReplication_def)

end
